theory Spec2Isabelle
  imports Complex_Main
begin

section \<open>Go primitives used by the load generator\<close>

text \<open>
  Go's \<open>int\<close> is taken to be the 64-bit signed integer of the usual platforms. Values are
  kept as \<open>int\<close>; where the source multiplies, the wrap-around is written out with
  \<open>int64\<close>. Integer division truncates towards zero.
\<close>

definition int64 :: "int \<Rightarrow> int" where
  "int64 x = (x + 2 ^ 63) mod 2 ^ 64 - 2 ^ 63"



definition go_quot :: "int \<Rightarrow> int \<Rightarrow> int" where
  "go_quot a b = sgn a * sgn b * (\<bar>a\<bar> div \<bar>b\<bar>)"

text \<open>The function \<open>min\<close> of the requester package (on \<open>int\<close>).\<close>

definition min_int :: "int \<Rightarrow> int \<Rightarrow> int" where
  "min_int a b = (if a < b then a else b)"

subsection \<open>strconv.Itoa\<close>

definition digit_char :: "nat \<Rightarrow> char" where
  "digit_char d = ''0123456789'' ! d"

function digits :: "nat \<Rightarrow> string" where
  "digits n = (if n < 10 then [digit_char n] else digits (n div 10) @ [digit_char (n mod 10)])"
  by pat_completeness auto
termination
  by (relation "measure id") auto

declare digits.simps [simp del]

definition Itoa :: "int \<Rightarrow> string" where
  "Itoa i = (if i < 0 then CHR ''-'' # digits (nat (- i)) else digits (nat i))"

subsection \<open>strings.Replace\<close>

text \<open>
  \<open>Replace s old new n\<close> replaces the first \<open>n\<close> non-overlapping occurrences of \<open>old\<close>,
  from the left; a negative \<open>n\<close> means no limit. The source only ever passes the
  non-empty token \<open>HEY\<close> and \<open>n = -1\<close>; Go's special treatment of an empty \<open>old\<close> is
  not modelled (the string is returned as it is).
\<close>

function Replace :: "string \<Rightarrow> string \<Rightarrow> string \<Rightarrow> int \<Rightarrow> string" where
  "Replace s old new n =
     (if n = 0 \<or> s = [] \<or> old = [] then s
      else if take (length old) s = old
        then new @ Replace (drop (length old) s) old new (n - 1)
      else hd s # Replace (tl s) old new n)"
  by pat_completeness auto
termination
  by (relation "measure (\<lambda>(s, old, new, n). length s)") auto

declare Replace.simps [simp del]

text \<open>
  The tag that \<open>makeRequest\<close> substitutes for the marker:
  \<open>strconv.Itoa(gort) + "-" + strconv.Itoa(n)\<close>.
\<close>

definition randmark_tag :: "int \<Rightarrow> int \<Rightarrow> string" where
  "randmark_tag gort n = Itoa gort @ ''-'' @ Itoa n"

definition mark :: "string \<Rightarrow> int \<Rightarrow> int \<Rightarrow> string" where
  "mark s gort n = Replace s ''HEY'' (randmark_tag gort n) (- 1)"

section \<open>Data model of package requester\<close>

type_synonym duration = int

text \<open>The struct \<open>result\<close>; \<open>err = None\<close> is the nil error.\<close>

record result =
  err :: "string option"
  statusCode :: int
  offset :: duration
  duration :: duration
  connDuration :: duration
  dnsDuration :: duration
  reqDuration :: duration
  resDuration :: duration
  delayDuration :: duration
  contentLength :: int

text \<open>
  A buffered Go channel: its capacity, the queued values (oldest first) and whether it
  has been closed. A send without a simultaneous receiver on a channel of capacity 0
  does not complete; rendezvous is not modelled.
\<close>

record 'a chan =
  ch_cap :: nat
  ch_buf :: "'a list"
  ch_closed :: bool

definition make_chan :: "nat \<Rightarrow> 'a chan" where
  "make_chan n = \<lparr>ch_cap = n, ch_buf = [], ch_closed = False\<rparr>"

datatype panic =
    MakechanSizeOutOfRange
  | NegativeWaitGroupCounter
  | IndexOutOfRange
  | NilCertificate
  | NilPointerDereference
  | SendOnClosedChannel
  | CloseOfNilChannel
  | CloseOfClosedChannel

datatype 'a send_outcome = SendBlocked | SendPanic | Sent "'a chan"

definition chan_send :: "'a chan option \<Rightarrow> 'a \<Rightarrow> 'a send_outcome" where
  "chan_send c x =
     (case c of
        None \<Rightarrow> SendBlocked
      | Some ch \<Rightarrow>
          if ch_closed ch then SendPanic
          else if length (ch_buf ch) < ch_cap ch then Sent (ch\<lparr>ch_buf := ch_buf ch @ [x]\<rparr>)
          else SendBlocked)"

datatype 'a recv_outcome = RecvBlocked | RecvClosed | Received 'a "'a chan"

definition chan_recv :: "'a chan option \<Rightarrow> 'a recv_outcome" where
  "chan_recv c =
     (case c of
        None \<Rightarrow> RecvBlocked
      | Some ch \<Rightarrow>
          (case ch_buf ch of
             x # xs \<Rightarrow> Received x (ch\<lparr>ch_buf := xs\<rparr>)
           | [] \<Rightarrow> if ch_closed ch then RecvClosed else RecvBlocked))"

subsection \<open>Requests and the objects they point to\<close>

text \<open>
  An \<open>*http.Request\<close> is the address of a request struct. The struct holds further
  references: \<open>URL\<close> is a pointer, \<open>Header\<close> a map and \<open>Body\<close> a reader. The store
  keeps the objects behind these references, so that two requests sharing one of them
  are visible as such. \<open>None\<close> is nil.
\<close>

type_synonym addr = nat

record url =
  url_Scheme :: string
  url_Host :: string
  url_Path :: string
  url_RawQuery :: string

record reader =
  rd_data :: string
  rd_pos :: nat

record request =
  Method :: string
  URL :: "addr option"
  Header :: "addr option"
  Body :: "addr option"
  ContentLength :: int
  Host :: string
  traced :: bool

record store =
  requests :: "addr \<rightharpoonup> request"
  urls :: "addr \<rightharpoonup> url"
  headers :: "addr \<rightharpoonup> (string \<rightharpoonup> string list)"
  readers :: "addr \<rightharpoonup> reader"
  next_addr :: addr

text \<open>
  Modelled from the spec: the Report Aggregator (\<open>newReport\<close>, \<open>runReporter\<close>, the
  \<open>done\<close> signal and \<open>finalize\<close>) is code of the repository that is not among the
  source files. It drains the Result Stream until the stream is closed and empty, then
  signals completion; \<open>finalize\<close> computes the Run Summary from the drained records
  and the total elapsed time.
\<close>

record summary =
  sm_issued :: nat
  sm_errors :: nat
  sm_elapsed :: duration

record report =
  rp_output :: string
  rp_numRes :: int
  rp_recv :: "result list"
  rp_done :: bool
  rp_summary :: "summary option"

record Work =
  Request :: addr
  RequestBody :: string
  RequestFunc :: "(store \<Rightarrow> addr \<times> store) option"
  N :: int
  C :: int
  H2 :: bool
  Timeout :: int
  QPS :: real
  DisableCompression :: bool
  DisableKeepAlives :: bool
  DisableRedirects :: bool
  Output :: string
  ProxyAddr :: "string option"
  initOnce :: bool
  results :: "result chan option"
  stopCh :: "unit chan option"
  start :: duration
  report :: "report option"
  Certfile :: string
  Keyfile :: string
  RandMark :: bool

subsection \<open>The transport and the client\<close>

record certificate =
  Certificate :: "string list"

record tls_config =
  RootCAs :: "string list option"
  Certificates :: "certificate list"
  InsecureSkipVerify :: bool
  ServerName :: string

datatype next_proto = NextProtoDefault | NextProtoNone | NextProtoH2

record transport =
  TLSClientConfig :: "tls_config option"
  MaxIdleConnsPerHost :: int
  TrDisableCompression :: bool
  TrDisableKeepAlives :: bool
  Proxy :: "string option"
  TLSNextProto :: next_proto

record client =
  Transport :: transport
  ClientTimeout :: duration
  CheckRedirect :: bool

section \<open>Initialisation\<close>

definition maxResult :: int where
  "maxResult = 1000000"

definition maxIdleConn :: int where
  "maxIdleConn = 500"

text \<open>
  \<open>Work.Init\<close>. The body runs under \<open>initOnce\<close>. \<open>make\<close> panics on a negative size.
\<close>

definition Init :: "Work \<Rightarrow> panic + Work" where
  "Init b =
     (if initOnce b then Inr b
      else
        let sz = min_int (int64 (C b * 1000)) maxResult in
        if sz < 0 \<or> C b < 0 then Inl MakechanSizeOutOfRange
        else Inr (b\<lparr>initOnce := True,
                     results := Some (make_chan (nat sz)),
                     stopCh := Some (make_chan (nat (C b)))\<rparr>))"

fun Init_times :: "nat \<Rightarrow> Work \<Rightarrow> panic + Work" where
  "Init_times 0 b = Inr b"
| "Init_times (Suc k) b = (case Init b of Inl p \<Rightarrow> Inl p | Inr b' \<Rightarrow> Init_times k b')"

section \<open>The command line: checks of \<open>main\<close> and \<open>requestFunc\<close>\<close>




section \<open>Building one request\<close>

definition header_map :: "store \<Rightarrow> addr option \<Rightarrow> (string \<rightharpoonup> string list)" where
  "header_map st h =
     (case h of
        None \<Rightarrow> Map.empty
      | Some a \<Rightarrow> (case headers st a of None \<Rightarrow> Map.empty | Some m \<Rightarrow> m))"

text \<open>
  \<open>cloneRequest\<close>: a new request struct that is a copy of \<open>*r\<close> (so every reference in
  it, the \<open>URL\<close> pointer among them, is the one of \<open>r\<close>), then a new header map with
  the entries of the old one, then, only when \<open>body\<close> is not empty, a new body reader.
\<close>

definition cloneRequest :: "store \<Rightarrow> addr \<Rightarrow> string \<Rightarrow> panic + (addr \<times> store)" where
  "cloneRequest st r body =
     (case requests st r of
        None \<Rightarrow> Inl NilPointerDereference
      | Some rv \<Rightarrow>
          let r2 = next_addr st;
              h = r2 + 1;
              st1 = st\<lparr>requests := (requests st)(r2 \<mapsto> rv\<lparr>Header := Some h\<rparr>),
                       headers := (headers st)(h \<mapsto> header_map st (Header rv)),
                       next_addr := r2 + 2\<rparr>
          in if length body > 0
             then let a = next_addr st1
                  in Inr (r2, st1\<lparr>requests := (requests st1)(r2 \<mapsto> rv\<lparr>Header := Some h, Body := Some a\<rparr>),
                                  readers := (readers st1)(a \<mapsto> \<lparr>rd_data = body, rd_pos = 0\<rparr>),
                                  next_addr := a + 1\<rparr>)
             else Inr (r2, st1))"

text \<open>
  \<open>Request.WithContext\<close> of net/http returns a shallow copy of the request with the
  context changed. Releases of net/http differ in one point: some also copy the URL
  struct. The flag \<open>copy_url\<close> says which behaviour the library has.
\<close>

definition WithContext :: "bool \<Rightarrow> store \<Rightarrow> addr \<Rightarrow> panic + (addr \<times> store)" where
  "WithContext copy_url st r =
     (case requests st r of
        None \<Rightarrow> Inl NilPointerDereference
      | Some rv \<Rightarrow>
          let r2 = next_addr st;
              st1 = st\<lparr>requests := (requests st)(r2 \<mapsto> rv\<lparr>traced := True\<rparr>),
                       next_addr := r2 + 1\<rparr>
          in (case URL rv of
                None \<Rightarrow> Inr (r2, st1)
              | Some u \<Rightarrow>
                  (case urls st u of
                     None \<Rightarrow> Inr (r2, st1)
                   | Some uv \<Rightarrow>
                       if copy_url
                       then let u2 = next_addr st1
                            in Inr (r2, st1\<lparr>requests := (requests st1)(r2 \<mapsto> rv\<lparr>traced := True, URL := Some u2\<rparr>),
                                            urls := (urls st1)(u2 \<mapsto> uv),
                                            next_addr := u2 + 1\<rparr>)
                       else Inr (r2, st1))))"

text \<open>
  The block under \<open>if b.RandMark\<close> of \<open>makeRequest\<close>: the marker is replaced in the
  host and the path of the URL that \<open>req.URL\<close> points to, in every value of the header
  map of \<open>req\<close>, and in \<open>b.RequestBody\<close>, from which a new body reader is made.
\<close>

definition randmark :: "Work \<Rightarrow> store \<Rightarrow> addr \<Rightarrow> int \<Rightarrow> int \<Rightarrow> panic + store" where
  "randmark b st req gort n =
     (case requests st req of
        None \<Rightarrow> Inl NilPointerDereference
      | Some rv \<Rightarrow>
          (case URL rv of
             None \<Rightarrow> Inl NilPointerDereference
           | Some u \<Rightarrow>
               (case urls st u of
                  None \<Rightarrow> Inl NilPointerDereference
                | Some uv \<Rightarrow>
                    let st1 = st\<lparr>urls := (urls st)(u \<mapsto> uv\<lparr>url_Host := mark (url_Host uv) gort n,
                                                              url_Path := mark (url_Path uv) gort n\<rparr>)\<rparr>;
                        st2 = (case Header rv of
                                 None \<Rightarrow> st1
                               | Some h \<Rightarrow>
                                   (case headers st1 h of
                                      None \<Rightarrow> st1
                                    | Some m \<Rightarrow>
                                        st1\<lparr>headers := (headers st1)
                                          (h \<mapsto> map_option (map (\<lambda>vv. mark vv gort n)) \<circ> m)\<rparr>));
                        body = mark (RequestBody b) gort n;
                        a = next_addr st2
                    in Inr (st2\<lparr>requests := (requests st2)
                                   (req \<mapsto> rv\<lparr>Body := Some a, ContentLength := int (length body)\<rparr>),
                                 readers := (readers st2)(a \<mapsto> \<lparr>rd_data = body, rd_pos = 0\<rparr>),
                                 next_addr := a + 1\<rparr>))))"

text \<open>
  \<open>makeRequest\<close> up to the call of \<open>c.Do\<close>: the request comes from \<open>RequestFunc\<close> or
  from \<open>cloneRequest\<close>, gets the trace context, and is marked when \<open>RandMark\<close> is set.
\<close>

definition makeRequest_request ::
  "bool \<Rightarrow> Work \<Rightarrow> store \<Rightarrow> int \<Rightarrow> int \<Rightarrow> panic + (addr \<times> store)" where
  "makeRequest_request copy_url b st gort n =
     (case (case RequestFunc b of
              Some f \<Rightarrow> Inr (f st)
            | None \<Rightarrow> cloneRequest st (Request b) (RequestBody b)) of
        Inl p \<Rightarrow> Inl p
      | Inr (req0, st0) \<Rightarrow>
          (case WithContext copy_url st0 req0 of
             Inl p \<Rightarrow> Inl p
           | Inr (req, st1) \<Rightarrow>
               if RandMark b
               then (case randmark b st1 req gort n of
                       Inl p \<Rightarrow> Inl p
                     | Inr st2 \<Rightarrow> Inr (req, st2))
               else Inr (req, st1)))"

text \<open>\<open>c.Do(req)\<close> reads the body of the request it sends, if there is one.\<close>

definition Do_reads_body :: "store \<Rightarrow> addr \<Rightarrow> store" where
  "Do_reads_body st req =
     (case requests st req of
        None \<Rightarrow> st
      | Some rv \<Rightarrow>
          (case Body rv of
             None \<Rightarrow> st
           | Some a \<Rightarrow>
               (case readers st a of
                  None \<Rightarrow> st
                | Some rd \<Rightarrow> st\<lparr>readers := (readers st)(a \<mapsto> rd\<lparr>rd_pos := length (rd_data rd)\<rparr>)\<rparr>)))"

text \<open>
  What the network and the clock give to one call of \<open>makeRequest\<close>: the readings of
  \<open>now()\<close> at entry and after the response, the outcome of \<open>c.Do\<close> (the error, or the
  status code and content length of the response), and the values the trace callbacks
  leave in the local variables (0 when a callback did not run).
\<close>

record roundtrip =
  rt_s :: duration
  rt_resp :: "string + (int \<times> int)"
  rt_dnsDuration :: duration
  rt_connDuration :: duration
  rt_reqDuration :: duration
  rt_delayDuration :: duration
  rt_resStart :: duration
  rt_t :: duration

text \<open>The record that \<open>makeRequest\<close> sends to \<open>b.results\<close>.\<close>

definition makeRequest_result :: "roundtrip \<Rightarrow> result" where
  "makeRequest_result rt =
     \<lparr>err = (case rt_resp rt of Inl e \<Rightarrow> Some e | Inr _ \<Rightarrow> None),
      statusCode = (case rt_resp rt of Inl _ \<Rightarrow> 0 | Inr (code, len) \<Rightarrow> code),
      offset = rt_s rt,
      duration = rt_t rt - rt_s rt,
      connDuration = rt_connDuration rt,
      dnsDuration = rt_dnsDuration rt,
      reqDuration = rt_reqDuration rt,
      resDuration = rt_t rt - rt_resStart rt,
      delayDuration = rt_delayDuration rt,
      contentLength = (case rt_resp rt of Inl _ \<Rightarrow> 0 | Inr (code, len) \<Rightarrow> len)\<rparr>"

section \<open>The transport of \<open>runWorkers\<close>\<close>

text \<open>
  The first half of \<open>runWorkers\<close>, up to the client. \<open>load\<close> is the outcome of
  \<open>tls.LoadX509KeyPair\<close> on the two files and \<open>parse\<close> stands for
  \<open>x509.ParseCertificate\<close>. When loading fails the error is printed and \<open>certs\<close> stays
  empty, so \<open>certs.Certificate[0]\<close> is out of range; when parsing fails \<open>ca\<close> is nil
  and \<open>AddCert\<close> panics.
\<close>

definition runWorkers_tls ::
  "Work \<Rightarrow> (string + certificate) \<Rightarrow> (string \<Rightarrow> string + string) \<Rightarrow> string \<Rightarrow> panic + tls_config" where
  "runWorkers_tls b load parse host =
     (if Certfile b \<noteq> [] \<and> Keyfile b \<noteq> [] then
        (let certs = (case load of Inl e \<Rightarrow> \<lparr>Certificate = []\<rparr> | Inr c \<Rightarrow> c)
         in case Certificate certs of
              [] \<Rightarrow> Inl IndexOutOfRange
            | der # _ \<Rightarrow>
                (case parse der of
                   Inl e \<Rightarrow> Inl NilCertificate
                 | Inr ca \<Rightarrow>
                     Inr \<lparr>RootCAs = Some [ca], Certificates = [certs],
                          InsecureSkipVerify = True, ServerName = host\<rparr>))
      else Inr \<lparr>RootCAs = None, Certificates = [],
                InsecureSkipVerify = True, ServerName = host\<rparr>)"

definition runWorkers_client ::
  "Work \<Rightarrow> store \<Rightarrow> (string + certificate) \<Rightarrow> (string \<Rightarrow> string + string) \<Rightarrow> panic + client" where
  "runWorkers_client b st load parse =
     (case runWorkers_tls b load parse
             (case requests st (Request b) of None \<Rightarrow> [] | Some rq \<Rightarrow> Host rq) of
        Inl p \<Rightarrow> Inl p
      | Inr cfg \<Rightarrow>
          (case requests st (Request b) of
             None \<Rightarrow> Inl NilPointerDereference
           | Some rq \<Rightarrow>
               Inr \<lparr>Transport =
                      \<lparr>TLSClientConfig = Some cfg,
                       MaxIdleConnsPerHost = min_int (C b) maxIdleConn,
                       TrDisableCompression = DisableCompression b,
                       TrDisableKeepAlives = DisableKeepAlives b,
                       Proxy = ProxyAddr b,
                       TLSNextProto = (if H2 b then NextProtoH2 else NextProtoNone)\<rparr>,
                    ClientTimeout = int64 (Timeout b * 1000000000),
                    CheckRedirect = False\<rparr>))"

section \<open>The Report Aggregator\<close>

text \<open>
  Modelled from the spec: \<open>newReport\<close>, one turn of the loop of \<open>runReporter\<close> and
  \<open>finalize\<close> (the file with the report is not among the source files). The reporter
  takes the next record from the Result Stream; when the stream is closed and empty it
  signals \<open>done\<close>. \<open>finalize\<close> makes the Run Summary.
\<close>

definition newReport :: "string \<Rightarrow> int \<Rightarrow> report" where
  "newReport output n =
     \<lparr>rp_output = output, rp_numRes = n, rp_recv = [], rp_done = False, rp_summary = None\<rparr>"

definition runReporter_step :: "Work \<Rightarrow> Work option" where
  "runReporter_step b =
     (case report b of
        None \<Rightarrow> None
      | Some rp \<Rightarrow>
          if rp_done rp then None
          else (case chan_recv (results b) of
                  RecvBlocked \<Rightarrow> None
                | RecvClosed \<Rightarrow> Some (b\<lparr>report := Some (rp\<lparr>rp_done := True\<rparr>)\<rparr>)
                | Received r ch \<Rightarrow>
                    Some (b\<lparr>results := Some ch,
                           report := Some (rp\<lparr>rp_recv := rp_recv rp @ [r]\<rparr>)\<rparr>)))"

definition summary_of :: "result list \<Rightarrow> duration \<Rightarrow> summary" where
  "summary_of rs t =
     \<lparr>sm_issued = length rs, sm_errors = length (filter (\<lambda>r. err r \<noteq> None) rs), sm_elapsed = t\<rparr>"

definition finalize :: "report \<Rightarrow> duration \<Rightarrow> report" where
  "finalize rp t = rp\<lparr>rp_summary := Some (summary_of (rp_recv rp) t)\<rparr>"

section \<open>One run as a system of goroutines\<close>

text \<open>
  What a run takes from outside the program: the duration \<open>-z\<close>, the outcome of every
  round trip (by worker and iteration), the outcome of loading and parsing the client
  certificate, the behaviour of \<open>WithContext\<close>, and two readings of the clock.
\<close>

record env =
  dur :: duration
  respond :: "nat \<Rightarrow> nat \<Rightarrow> roundtrip"
  LoadX509KeyPair :: "string + certificate"
  ParseCertificate :: "string \<Rightarrow> string + string"
  WithContext_copies_URL :: bool
  now_start :: duration
  now_finish :: duration

text \<open>
  The main goroutine runs \<open>requestFunc\<close> from \<open>w.Init()\<close> on: \<open>userKill\<close> and the
  timer of \<open>-z\<close>, then \<open>Run\<close> (\<open>Init\<close>, the reporter, \<open>runWorkers\<close>, \<open>Finish\<close>).
\<close>

datatype mainpc =
    M_Init
  | M_UserKill
  | M_RunInit
  | M_GoReporter
  | M_RunWorkers
  | M_Spawn nat
  | M_Wait
  | M_Finish
  | M_WaitReporter
  | M_Finalize
  | M_Returned

text \<open>
  A worker goroutine: not yet started, at the head of \<open>runWorker\<close>, at the head of the
  loop with counter \<open>i\<close>, waiting for the throttle, inside \<open>makeRequest\<close> about to send
  the record, or returned (with the final counter, and whether it returned on a stop
  token).
\<close>

datatype wstate =
    W_NotStarted
  | W_Start
  | W_Loop nat
  | W_Throttle nat
  | W_Push nat result
  | W_Done nat bool

text \<open>A call of \<open>Stop\<close>: not made, in its loop with counter \<open>i\<close>, or returned.\<close>

datatype stopper = S_Idle | S_Sending nat | S_Finished

datatype action =
    A_Main
  | A_Worker nat
  | A_Reporter
  | A_TimerFires
  | A_Interrupt
  | A_TimerStop
  | A_SigintStop

text \<open>
  The state of the run. \<open>sent\<close> and \<open>pushed\<close> are history variables, not data of the
  program: the worker and iteration of every call of \<open>c.Do\<close>, and of every record sent
  to \<open>b.results\<close>, in order.
\<close>

record state =
  work :: Work
  heap :: store
  the_client :: "client option"
  mainpc :: mainpc
  total :: duration
  wg :: int
  workers :: "nat \<Rightarrow> wstate"
  reporter_started :: bool
  sigint_armed :: bool
  timer_started :: bool
  timer_stop :: stopper
  sigint_stop :: stopper
  crashed :: "panic option"
  sent :: "(nat \<times> nat) list"
  pushed :: "((nat \<times> nat) \<times> result) list"

definition initial :: "Work \<Rightarrow> store \<Rightarrow> state" where
  "initial b st =
     \<lparr>work = b\<lparr>initOnce := False, results := None, stopCh := None, start := 0, report := None\<rparr>,
      heap = st, the_client = None, mainpc = M_Init, total = 0, wg = 0,
      workers = (\<lambda>g. W_NotStarted), reporter_started = False, sigint_armed = False,
      timer_started = False, timer_stop = S_Idle, sigint_stop = S_Idle, crashed = None,
      sent = [], pushed = []\<rparr>"

definition crash :: "panic \<Rightarrow> state \<Rightarrow> state" where
  "crash p s = s\<lparr>crashed := Some p\<rparr>"

definition main_step :: "env \<Rightarrow> state \<Rightarrow> state option" where
  "main_step e s =
     (case mainpc s of
        M_Init \<Rightarrow>
          (case Init (work s) of
             Inl p \<Rightarrow> Some (crash p s)
           | Inr b \<Rightarrow> Some (s\<lparr>work := b, mainpc := M_UserKill\<rparr>))
      | M_UserKill \<Rightarrow>
          Some (s\<lparr>sigint_armed := True, timer_started := (dur e > 0), mainpc := M_RunInit\<rparr>)
      | M_RunInit \<Rightarrow>
          (case Init (work s) of
             Inl p \<Rightarrow> Some (crash p s)
           | Inr b \<Rightarrow> Some (s\<lparr>work := b, mainpc := M_GoReporter\<rparr>))
      | M_GoReporter \<Rightarrow>
          Some (s\<lparr>work := (work s)\<lparr>start := now_start e,
                                    report := Some (newReport (Output (work s)) (N (work s)))\<rparr>,
                 reporter_started := True, mainpc := M_RunWorkers\<rparr>)
      | M_RunWorkers \<Rightarrow>
          (case runWorkers_client (work s) (heap s) (LoadX509KeyPair e) (ParseCertificate e) of
             Inl p \<Rightarrow> Some (crash p s)
           | Inr cl \<Rightarrow>
               if C (work s) < 0 then Some (crash NegativeWaitGroupCounter s)
               else Some (s\<lparr>the_client := Some cl, wg := C (work s), mainpc := M_Spawn 0\<rparr>))
      | M_Spawn k \<Rightarrow>
          if int k < C (work s)
          then Some (s\<lparr>workers := (workers s)(k := W_Start), mainpc := M_Spawn (Suc k)\<rparr>)
          else Some (s\<lparr>mainpc := M_Wait\<rparr>)
      | M_Wait \<Rightarrow> if wg s = 0 then Some (s\<lparr>mainpc := M_Finish\<rparr>) else None
      | M_Finish \<Rightarrow>
          (case results (work s) of
             None \<Rightarrow> Some (crash CloseOfNilChannel s)
           | Some ch \<Rightarrow>
               if ch_closed ch then Some (crash CloseOfClosedChannel s)
               else Some (s\<lparr>work := (work s)\<lparr>results := Some (ch\<lparr>ch_closed := True\<rparr>)\<rparr>,
                            total := now_finish e - start (work s),
                            mainpc := M_WaitReporter\<rparr>))
      | M_WaitReporter \<Rightarrow>
          (case report (work s) of
             None \<Rightarrow> Some (crash NilPointerDereference s)
           | Some rp \<Rightarrow> if rp_done rp then Some (s\<lparr>mainpc := M_Finalize\<rparr>) else None)
      | M_Finalize \<Rightarrow>
          (case report (work s) of
             None \<Rightarrow> Some (crash NilPointerDereference s)
           | Some rp \<Rightarrow>
               Some (s\<lparr>work := (work s)\<lparr>report := Some (finalize rp (total s))\<rparr>,
                      mainpc := M_Returned\<rparr>))
      | M_Returned \<Rightarrow> None)"

text \<open>
  \<open>time.Tick(d)\<close> returns a nil channel when \<open>d \<le> 0\<close>, and a receive from a nil channel
  never completes. \<open>d\<close> is \<open>time.Duration(1e6/QPS) * time.Microsecond\<close>; the rounding of
  the floating-point division is not modelled.
\<close>

definition throttle_ticks :: "real \<Rightarrow> bool" where
  "throttle_ticks q = (0 < int64 (\<lfloor>1000000 / q\<rfloor> * 1000))"

text \<open>
  \<open>makeRequest\<close> from its entry to the record it is about to send: the request is built,
  \<open>c.Do\<close> is called, and the record is made from what came back.
\<close>

definition makeRequest :: "env \<Rightarrow> nat \<Rightarrow> nat \<Rightarrow> state \<Rightarrow> state" where
  "makeRequest e g i s =
     (case makeRequest_request (WithContext_copies_URL e) (work s) (heap s) (int g) (int i) of
        Inl p \<Rightarrow> crash p s
      | Inr (req, st) \<Rightarrow>
          s\<lparr>heap := Do_reads_body st req,
            workers := (workers s)(g := W_Push i (makeRequest_result (respond e g i))),
            sent := sent s @ [(g, i)]\<rparr>)"

text \<open>
  The return of \<open>runWorker\<close> followed by \<open>wg.Done()\<close>, which panics on a negative
  counter.
\<close>

definition worker_returns :: "nat \<Rightarrow> nat \<Rightarrow> bool \<Rightarrow> state \<Rightarrow> state" where
  "worker_returns g i by_stop s =
     (if wg s - 1 < 0 then crash NegativeWaitGroupCounter s
      else s\<lparr>wg := wg s - 1, workers := (workers s)(g := W_Done i by_stop)\<rparr>)"

text \<open>
  One step of the goroutine of worker \<open>g\<close>: \<open>runWorker(client, g, b.N/b.C)\<close> followed by
  \<open>wg.Done()\<close>.
\<close>

definition worker_step :: "env \<Rightarrow> nat \<Rightarrow> state \<Rightarrow> state option" where
  "worker_step e g s =
     (case workers s g of
        W_NotStarted \<Rightarrow> None
      | W_Start \<Rightarrow>
          Some (s\<lparr>the_client :=
                    (if DisableRedirects (work s)
                     then map_option (\<lambda>c. c\<lparr>CheckRedirect := True\<rparr>) (the_client s)
                     else the_client s),
                 workers := (workers s)(g := W_Loop 0)\<rparr>)
      | W_Loop i \<Rightarrow>
          if \<not> int i < go_quot (N (work s)) (C (work s))
          then Some (worker_returns g i False s)
          else (case chan_recv (stopCh (work s)) of
                  Received x ch \<Rightarrow>
                    Some (worker_returns g i True (s\<lparr>work := (work s)\<lparr>stopCh := Some ch\<rparr>\<rparr>))
                | RecvClosed \<Rightarrow>
                    Some (worker_returns g i True s)
                | RecvBlocked \<Rightarrow>
                    if QPS (work s) > 0
                    then Some (s\<lparr>workers := (workers s)(g := W_Throttle i)\<rparr>)
                    else Some (makeRequest e g i s))
      | W_Throttle i \<Rightarrow>
          if throttle_ticks (QPS (work s)) then Some (makeRequest e g i s) else None
      | W_Push i r \<Rightarrow>
          (case chan_send (results (work s)) r of
             SendBlocked \<Rightarrow> None
           | SendPanic \<Rightarrow> Some (crash SendOnClosedChannel s)
           | Sent ch \<Rightarrow>
               Some (s\<lparr>work := (work s)\<lparr>results := Some ch\<rparr>,
                      workers := (workers s)(g := W_Loop (Suc i)),
                      pushed := pushed s @ [((g, i), r)]\<rparr>))
      | W_Done i st \<Rightarrow> None)"

text \<open>One step of a call of \<open>Work.Stop\<close>: the next send of its loop, or its return.\<close>

definition Stop_step :: "stopper \<Rightarrow> state \<Rightarrow> (stopper \<times> state) option" where
  "Stop_step sp s =
     (case sp of
        S_Idle \<Rightarrow> None
      | S_Finished \<Rightarrow> None
      | S_Sending i \<Rightarrow>
          if int i < C (work s)
          then (case chan_send (stopCh (work s)) () of
                  SendBlocked \<Rightarrow> None
                | SendPanic \<Rightarrow> Some (sp, crash SendOnClosedChannel s)
                | Sent ch \<Rightarrow> Some (S_Sending (Suc i), s\<lparr>work := (work s)\<lparr>stopCh := Some ch\<rparr>\<rparr>))
          else Some (S_Finished, s))"

definition step :: "env \<Rightarrow> action \<Rightarrow> state \<Rightarrow> state option" where
  "step e a s =
     (if crashed s \<noteq> None then None
      else case a of
        A_Main \<Rightarrow> main_step e s
      | A_Worker g \<Rightarrow> worker_step e g s
      | A_Reporter \<Rightarrow>
          if reporter_started s
          then map_option (\<lambda>b. s\<lparr>work := b\<rparr>) (runReporter_step (work s))
          else None
      | A_TimerFires \<Rightarrow>
          if timer_started s \<and> timer_stop s = S_Idle
          then Some (s\<lparr>timer_stop := S_Sending 0\<rparr>) else None
      | A_Interrupt \<Rightarrow>
          if sigint_armed s \<and> sigint_stop s = S_Idle
          then Some (s\<lparr>sigint_stop := S_Sending 0\<rparr>) else None
      | A_TimerStop \<Rightarrow>
          map_option (\<lambda>(sp, s'). s'\<lparr>timer_stop := sp\<rparr>) (Stop_step (timer_stop s) s)
      | A_SigintStop \<Rightarrow>
          map_option (\<lambda>(sp, s'). s'\<lparr>sigint_stop := sp\<rparr>) (Stop_step (sigint_stop s) s))"

text \<open>A schedule is a list of actions; \<open>exec\<close> is \<open>None\<close> when one of them cannot run.\<close>

fun exec :: "env \<Rightarrow> action list \<Rightarrow> state \<Rightarrow> state option" where
  "exec e [] s = Some s"
| "exec e (a # as) s = (case step e a s of None \<Rightarrow> None | Some s' \<Rightarrow> exec e as s')"

section \<open>Example values\<close>

definition ex_store :: store where
  "ex_store =
     \<lparr>requests = [0 \<mapsto> \<lparr>Method = ''GET'', URL = Some 1, Header = Some 2, Body = None,
                            ContentLength = 5, Host = [], traced = False\<rparr>],
      urls = [1 \<mapsto> \<lparr>url_Scheme = ''http'', url_Host = ''HEY.example.com'',
                      url_Path = ''/a/HEY'', url_RawQuery = []\<rparr>],
      headers = [2 \<mapsto> [''X-Id'' \<mapsto> [''id-HEY'']]],
      readers = Map.empty,
      next_addr = 3\<rparr>"

definition ex_work :: Work where
  "ex_work =
     \<lparr>Request = 0, RequestBody = ''b=HEY'', RequestFunc = None, N = 3, C = 2, H2 = False,
      Timeout = 20, QPS = 0, DisableCompression = False, DisableKeepAlives = False,
      DisableRedirects = False, Output = [], ProxyAddr = None, initOnce = False,
      results = None, stopCh = None, start = 0, report = None, Certfile = [], Keyfile = [],
      RandMark = True\<rparr>"

definition ex_roundtrip :: "nat \<Rightarrow> nat \<Rightarrow> roundtrip" where
  "ex_roundtrip g i =
     \<lparr>rt_s = 10, rt_resp = (if g = 0 then Inl ''connection refused'' else Inr (200, 12)),
      rt_dnsDuration = 1, rt_connDuration = 2, rt_reqDuration = 3, rt_delayDuration = 4,
      rt_resStart = 25, rt_t = 30\<rparr>"

definition ex_env :: env where
  "ex_env =
     \<lparr>dur = 0, respond = ex_roundtrip, LoadX509KeyPair = Inl ''no such file'',
      ParseCertificate = (\<lambda>der. Inl ''malformed certificate''),
      WithContext_copies_URL = False, now_start = 0, now_finish = 100\<rparr>"

text \<open>
  A complete schedule for \<open>ex_work\<close> (two workers, \<open>N = 3\<close>): the main goroutine up to
  \<open>wg.Wait\<close>, each worker through its one iteration, the reporter, and \<open>Finish\<close>.
\<close>

definition ex_schedule :: "action list" where
  "ex_schedule =
     [A_Main, A_Main, A_Main, A_Main, A_Main, A_Main, A_Main, A_Main,
      A_Worker 0, A_Worker 1, A_Worker 0, A_Worker 0, A_Reporter, A_Worker 1, A_Worker 1,
      A_Worker 0, A_Worker 1, A_Main, A_Main, A_Reporter, A_Reporter, A_Main, A_Main]"

section \<open>Reachable states\<close>

definition reach :: "env \<Rightarrow> Work \<Rightarrow> store \<Rightarrow> state \<Rightarrow> bool" where
  "reach e b st s = (\<exists>sched. exec e sched (initial b st) = Some s)"

text \<open>The fields of a \<open>Work\<close> that a run never writes.\<close>

definition params :: "Work \<Rightarrow> Work" where
  "params b = b\<lparr>initOnce := False, results := None, stopCh := None, start := 0, report := None\<rparr>"

definition cap0 :: "Work \<Rightarrow> nat" where
  "cap0 b = nat (min_int (int64 (C b * 1000)) maxResult)"

section \<open>Invariants of a run\<close>

fun stage :: "mainpc \<Rightarrow> nat" where
  "stage M_Init = 0"
| "stage M_UserKill = 1"
| "stage M_RunInit = 2"
| "stage M_GoReporter = 3"
| "stage M_RunWorkers = 4"
| "stage (M_Spawn k) = 5"
| "stage M_Wait = 6"
| "stage M_Finish = 7"
| "stage M_WaitReporter = 8"
| "stage M_Finalize = 9"
| "stage M_Returned = 10"

fun spawned :: "mainpc \<Rightarrow> int \<Rightarrow> nat" where
  "spawned M_Init c = 0"
| "spawned M_UserKill c = 0"
| "spawned M_RunInit c = 0"
| "spawned M_GoReporter c = 0"
| "spawned M_RunWorkers c = 0"
| "spawned (M_Spawn k) c = k"
| "spawned M_Wait c = nat c"
| "spawned M_Finish c = nat c"
| "spawned M_WaitReporter c = nat c"
| "spawned M_Finalize c = nat c"
| "spawned M_Returned c = nat c"

fun is_done :: "wstate \<Rightarrow> bool" where
  "is_done (W_Done i b) = True"
| "is_done w = False"

definition rbuf :: "state \<Rightarrow> result list" where
  "rbuf s = (case results (work s) of None \<Rightarrow> [] | Some ch \<Rightarrow> ch_buf ch)"

definition rclosed :: "state \<Rightarrow> bool" where
  "rclosed s = (case results (work s) of None \<Rightarrow> False | Some ch \<Rightarrow> ch_closed ch)"

definition recv :: "state \<Rightarrow> result list" where
  "recv s = (case report (work s) of None \<Rightarrow> [] | Some rp \<Rightarrow> rp_recv rp)"

definition rdone :: "state \<Rightarrow> bool" where
  "rdone s = (case report (work s) of None \<Rightarrow> False | Some rp \<Rightarrow> rp_done rp)"

definition the_summary :: "state \<Rightarrow> summary option" where
  "the_summary s = (case report (work s) of None \<Rightarrow> None | Some rp \<Rightarrow> rp_summary rp)"

definition inv_order :: "state \<Rightarrow> bool" where
  "inv_order s =
     (reporter_started s = (4 \<le> stage (mainpc s)) \<and>
      (report (work s) \<noteq> None) = (4 \<le> stage (mainpc s)) \<and>
      (results (work s) \<noteq> None) = initOnce (work s) \<and>
      (1 \<le> stage (mainpc s) \<longrightarrow> initOnce (work s)) \<and>
      (\<forall>g. (g < spawned (mainpc s) (C (work s))) = (workers s g \<noteq> W_NotStarted)) \<and>
      (\<forall>k. mainpc s = M_Spawn k \<longrightarrow> int k \<le> C (work s)) \<and>
      (5 \<le> stage (mainpc s) \<longrightarrow> 0 \<le> C (work s)) \<and>
      rclosed s = (8 \<le> stage (mainpc s)) \<and>
      (9 \<le> stage (mainpc s) \<longrightarrow> rdone s) \<and>
      the_summary s = (if mainpc s = M_Returned then Some (summary_of (recv s) (total s)) else None))"

definition rcap :: "state \<Rightarrow> nat" where
  "rcap s = (case results (work s) of None \<Rightarrow> 0 | Some ch \<Rightarrow> ch_cap ch)"

definition sbuf :: "state \<Rightarrow> unit list" where
  "sbuf s = (case stopCh (work s) of None \<Rightarrow> [] | Some ch \<Rightarrow> ch_buf ch)"

definition scap :: "state \<Rightarrow> nat" where
  "scap s = (case stopCh (work s) of None \<Rightarrow> 0 | Some ch \<Rightarrow> ch_cap ch)"

definition sclosed :: "state \<Rightarrow> bool" where
  "sclosed s = (case stopCh (work s) of None \<Rightarrow> False | Some ch \<Rightarrow> ch_closed ch)"

definition inv_chan :: "state \<Rightarrow> bool" where
  "inv_chan s =
     (length (rbuf s) \<le> rcap s \<and> (initOnce (work s) \<longrightarrow> rcap s = cap0 (work s)) \<and>
      length (sbuf s) \<le> scap s \<and> (initOnce (work s) \<longrightarrow> scap s = nat (C (work s))) \<and>
      \<not> sclosed s)"

definition inv_drain :: "state \<Rightarrow> bool" where
  "inv_drain s = (rdone s \<longrightarrow> rclosed s \<and> rbuf s = [])"

definition live :: "nat \<Rightarrow> (nat \<Rightarrow> wstate) \<Rightarrow> nat set" where
  "live c ws = {g. g < c \<and> \<not> is_done (ws g)}"

definition inv_wg :: "state \<Rightarrow> bool" where
  "inv_wg s =
     ((5 \<le> stage (mainpc s) \<longrightarrow> wg s = int (card (live (nat (C (work s))) (workers s)))) \<and>
      (7 \<le> stage (mainpc s) \<longrightarrow> (\<forall>g. is_done (workers s g) \<or> workers s g = W_NotStarted)))"

fun iters :: "wstate \<Rightarrow> nat" where
  "iters W_NotStarted = 0"
| "iters W_Start = 0"
| "iters (W_Loop i) = i"
| "iters (W_Throttle i) = i"
| "iters (W_Push i r) = Suc i"
| "iters (W_Done i b) = i"

fun npushed :: "wstate \<Rightarrow> nat" where
  "npushed W_NotStarted = 0"
| "npushed W_Start = 0"
| "npushed (W_Loop i) = i"
| "npushed (W_Throttle i) = i"
| "npushed (W_Push i r) = i"
| "npushed (W_Done i b) = i"

definition inv_sent :: "state \<Rightarrow> bool" where
  "inv_sent s =
     ((\<forall>g i. ((g, i) \<in> set (sent s)) = (i < iters (workers s g))) \<and>
      distinct (sent s) \<and>
      (\<forall>g. length (filter (\<lambda>p. fst p = g) (sent s)) = iters (workers s g)))"

definition inv_pushed :: "env \<Rightarrow> state \<Rightarrow> bool" where
  "inv_pushed e s =
     ((\<forall>g i. ((g, i) \<in> fst ` set (pushed s)) = (i < npushed (workers s g))) \<and>
      distinct (map fst (pushed s)) \<and>
      (\<forall>g i r. workers s g = W_Push i r \<longrightarrow> r = makeRequest_result (respond e g i)) \<and>
      (\<forall>g i r. ((g, i), r) \<in> set (pushed s) \<longrightarrow> r = makeRequest_result (respond e g i)) \<and>
      map snd (pushed s) = recv s @ rbuf s)"

fun wbound :: "int \<Rightarrow> wstate \<Rightarrow> bool" where
  "wbound n W_NotStarted = True"
| "wbound n W_Start = True"
| "wbound n (W_Loop i) = (int i \<le> max 0 n)"
| "wbound n (W_Throttle i) = (int i < n)"
| "wbound n (W_Push i r) = (int i < n)"
| "wbound n (W_Done i b) = (if b then int i < n else int i = max 0 n)"

fun by_stop :: "wstate \<Rightarrow> bool" where
  "by_stop (W_Done i b) = b"
| "by_stop w = False"

definition inv_bound :: "state \<Rightarrow> bool" where
  "inv_bound s = (\<forall>g. wbound (go_quot (N (work s)) (C (work s))) (workers s g))"

definition inv_stop :: "env \<Rightarrow> state \<Rightarrow> bool" where
  "inv_stop e s =
     ((timer_started s \<longrightarrow> 0 < dur e) \<and>
      (timer_stop s \<noteq> S_Idle \<longrightarrow> timer_started s) \<and>
      (timer_stop s = S_Idle \<and> sigint_stop s = S_Idle \<longrightarrow>
         sbuf s = [] \<and> (\<forall>g. \<not> by_stop (workers s g))))"

definition inv_all :: "env \<Rightarrow> state \<Rightarrow> bool" where
  "inv_all e s =
     (inv_order s \<and> inv_chan s \<and> inv_drain s \<and> inv_wg s \<and> inv_sent s \<and> inv_pushed e s \<and>
      inv_bound s \<and> inv_stop e s)"

text \<open>The state that the example schedule leads to.\<close>

definition ex_final :: state where
  "ex_final =
     (case exec ex_env ex_schedule (initial ex_work ex_store) of
        None \<Rightarrow> initial ex_work ex_store
      | Some s \<Rightarrow> s)"





section \<open>The marker tag\<close>















section \<open>Initialisation and validation\<close>

lemma Init_done: "Init b = Inr b1 \<Longrightarrow> initOnce b1"
  by (auto simp: Init_def Let_def split: if_splits)

lemma Init_again: "initOnce b \<Longrightarrow> Init b = Inr b"
  by (simp add: Init_def)

lemma Init_times_done: "initOnce b \<Longrightarrow> Init_times k b = Inr b"
  by (induction k) (simp_all add: Init_again)


lemma ex_Init:
  "Init ex_work = Inr (ex_work\<lparr>initOnce := True, results := Some (make_chan 2000),
                              stopCh := Some (make_chan 2)\<rparr>)"
  by (simp add: Init_def ex_work_def Let_def int64_def min_int_def maxResult_def)

text \<open>
  C10. \<open>Init\<close> is idempotent: once a call of \<open>Init\<close> has returned, every later call, and
  any number of later calls in a row, returns the same \<open>Work\<close> unchanged, so the Result
  Stream and the Stop Signal that the first call allocated stay the ones in the \<open>Work\<close>.
\<close>

theorem Init_idempotent:
  "Init b = Inr b1 \<Longrightarrow>
     initOnce b1 \<and> Init b1 = Inr b1 \<and> Init_times k b1 = Inr b1 \<and>
     (\<not> initOnce b \<longrightarrow> results b1 \<noteq> None \<and> stopCh b1 \<noteq> None)"
proof -
  assume h: "Init b = Inr b1"
  then have d: "initOnce b1" by (rule Init_done)
  moreover have "\<not> initOnce b \<longrightarrow> results b1 \<noteq> None \<and> stopCh b1 \<noteq> None"
    using h by (auto simp: Init_def Let_def split: if_splits)
  ultimately show ?thesis by (simp add: Init_again Init_times_done)
qed

theorem Init_idempotent_witness:
  "Init ex_work = Inr (ex_work\<lparr>initOnce := True, results := Some (make_chan 2000),
                              stopCh := Some (make_chan 2)\<rparr>) \<and>
   Init_times 3 (ex_work\<lparr>initOnce := True, results := Some (make_chan 2000),
                         stopCh := Some (make_chan 2)\<rparr>)
     = Inr (ex_work\<lparr>initOnce := True, results := Some (make_chan 2000),
                    stopCh := Some (make_chan 2)\<rparr>)"
  using Init_idempotent [OF ex_Init, of 3] ex_Init by simp




section \<open>The transport\<close>

text \<open>
  C9. Whenever \<open>runWorkers\<close> gets as far as the client, the TLS configuration of its
  transport has \<open>InsecureSkipVerify\<close> set; and it gets that far both without a client
  certificate and key and with a pair that loads and parses (given a request to take the
  server name from).
\<close>

theorem transport_skips_verification:
  "(runWorkers_client b st load parse = Inr cl \<longrightarrow>
      (\<exists>cfg. TLSClientConfig (Transport cl) = Some cfg \<and> InsecureSkipVerify cfg)) \<and>
   ((Certfile b = [] \<or> Keyfile b = []) \<and> requests st (Request b) \<noteq> None \<longrightarrow>
      (\<exists>cl. runWorkers_client b st load parse = Inr cl)) \<and>
   (Certfile b \<noteq> [] \<and> Keyfile b \<noteq> [] \<and> load = Inr certs \<and> Certificate certs = der # ders \<and>
    parse der = Inr ca \<and> requests st (Request b) \<noteq> None \<longrightarrow>
      (\<exists>cl. runWorkers_client b st load parse = Inr cl))"
proof -
  have tls: "\<And>host cfg. runWorkers_tls b load parse host = Inr cfg \<Longrightarrow> InsecureSkipVerify cfg"
    by (auto simp: runWorkers_tls_def Let_def split: if_splits list.splits sum.splits)
  have a: "runWorkers_client b st load parse = Inr cl \<longrightarrow>
      (\<exists>cfg. TLSClientConfig (Transport cl) = Some cfg \<and> InsecureSkipVerify cfg)"
    by (auto simp: runWorkers_client_def split: sum.splits option.splits dest: tls)
  have b: "(Certfile b = [] \<or> Keyfile b = []) \<and> requests st (Request b) \<noteq> None \<longrightarrow>
      (\<exists>cl. runWorkers_client b st load parse = Inr cl)"
    by (auto simp: runWorkers_client_def runWorkers_tls_def)
  have c: "Certfile b \<noteq> [] \<and> Keyfile b \<noteq> [] \<and> load = Inr certs \<and> Certificate certs = der # ders \<and>
    parse der = Inr ca \<and> requests st (Request b) \<noteq> None \<longrightarrow>
      (\<exists>cl. runWorkers_client b st load parse = Inr cl)"
    by (auto simp: runWorkers_client_def runWorkers_tls_def)
  from a b c show ?thesis by blast
qed

theorem transport_skips_verification_witness:
  "(\<exists>cl cfg. runWorkers_client ex_work ex_store (Inl ''no such file'') (\<lambda>der. Inl ''malformed'') = Inr cl \<and>
      TLSClientConfig (Transport cl) = Some cfg \<and> InsecureSkipVerify cfg \<and> Certificates cfg = []) \<and>
   (\<exists>cl cfg. runWorkers_client (ex_work\<lparr>Certfile := ''c.pem'', Keyfile := ''k.pem''\<rparr>) ex_store
        (Inr \<lparr>Certificate = [''der'']\<rparr>) (\<lambda>der. Inr ''ca'') = Inr cl \<and>
      TLSClientConfig (Transport cl) = Some cfg \<and> InsecureSkipVerify cfg \<and>
      Certificates cfg = [\<lparr>Certificate = [''der'']\<rparr>])"
  using transport_skips_verification
      [of ex_work ex_store "Inl ''no such file''" "\<lambda>der. Inl ''malformed''" _ undefined undefined undefined undefined]
    transport_skips_verification
      [of "ex_work\<lparr>Certfile := ''c.pem'', Keyfile := ''k.pem''\<rparr>" ex_store
          "Inr \<lparr>Certificate = [''der'']\<rparr>" "\<lambda>der. Inr ''ca''" _ "\<lparr>Certificate = [''der'']\<rparr>" "''der''" "[]" "''ca''"]
  by (simp add: runWorkers_client_def runWorkers_tls_def ex_work_def ex_store_def min_int_def
      maxIdleConn_def int64_def)

lemma exec_append:
  "exec e (xs @ ys) s = (case exec e xs s of None \<Rightarrow> None | Some s' \<Rightarrow> exec e ys s')"
  by (induction xs arbitrary: s) (auto split: option.splits)

lemma exec_invariant:
  assumes step: "\<And>a s s'. P s \<Longrightarrow> step e a s = Some s' \<Longrightarrow> P s'"
  shows "P s0 \<Longrightarrow> exec e sched s0 = Some s \<Longrightarrow> P s"
proof (induction sched arbitrary: s0)
  case Nil
  then show ?case by simp
next
  case (Cons a sched)
  from Cons.prems(2) obtain s1 where s1: "step e a s0 = Some s1" and r: "exec e sched s1 = Some s"
    by (auto split: option.splits)
  from step [OF Cons.prems(1) s1] have "P s1" .
  from Cons.IH [OF this r] show ?case .
qed

lemma reach_invariant:
  assumes "P (initial b st)" and "\<And>a s s'. P s \<Longrightarrow> step e a s = Some s' \<Longrightarrow> P s'"
  shows "reach e b st s \<Longrightarrow> P s"
  using exec_invariant [of P e, OF assms(2) assms(1)] by (auto simp: reach_def)

lemma Init_cases:
  assumes "Init b = Inr b'"
  obtains (again) "initOnce b" "b' = b"
  | (first) "\<not> initOnce b" "0 \<le> C b"
      "b' = b\<lparr>initOnce := True, results := Some (make_chan (cap0 b)),
               stopCh := Some (make_chan (nat (C b)))\<rparr>"
  using assms by (auto simp: Init_def Let_def cap0_def split: if_splits)

lemma main_step_cases:
  assumes "main_step e s = Some s'"
  obtains (crash) p where "s' = crash p s"
  | (init) "mainpc s = M_Init" "\<not> initOnce (work s)" "0 \<le> C (work s)"
      "s' = s\<lparr>work := (work s)\<lparr>initOnce := True, results := Some (make_chan (cap0 (work s))),
                  stopCh := Some (make_chan (nat (C (work s))))\<rparr>,
               mainpc := M_UserKill\<rparr>"
  | (init_again) "mainpc s = M_Init" "initOnce (work s)" "s' = s\<lparr>mainpc := M_UserKill\<rparr>"
  | (userKill) "mainpc s = M_UserKill"
      "s' = s\<lparr>sigint_armed := True, timer_started := (dur e > 0), mainpc := M_RunInit\<rparr>"
  | (runInit) "mainpc s = M_RunInit" "\<not> initOnce (work s)" "0 \<le> C (work s)"
      "s' = s\<lparr>work := (work s)\<lparr>initOnce := True, results := Some (make_chan (cap0 (work s))),
                  stopCh := Some (make_chan (nat (C (work s))))\<rparr>,
               mainpc := M_GoReporter\<rparr>"
  | (runInit_again) "mainpc s = M_RunInit" "initOnce (work s)" "s' = s\<lparr>mainpc := M_GoReporter\<rparr>"
  | (goReporter) "mainpc s = M_GoReporter"
      "s' = s\<lparr>work := (work s)\<lparr>start := now_start e,
                  report := Some (newReport (Output (work s)) (N (work s)))\<rparr>,
               reporter_started := True, mainpc := M_RunWorkers\<rparr>"
  | (runWorkers) cl where "mainpc s = M_RunWorkers" "0 \<le> C (work s)"
      "s' = s\<lparr>the_client := Some cl, wg := C (work s), mainpc := M_Spawn 0\<rparr>"
  | (spawn) k where "mainpc s = M_Spawn k" "int k < C (work s)"
      "s' = s\<lparr>workers := (workers s)(k := W_Start), mainpc := M_Spawn (Suc k)\<rparr>"
  | (spawned) k where "mainpc s = M_Spawn k" "\<not> int k < C (work s)" "s' = s\<lparr>mainpc := M_Wait\<rparr>"
  | (wait) "mainpc s = M_Wait" "wg s = 0" "s' = s\<lparr>mainpc := M_Finish\<rparr>"
  | (finish) ch where "mainpc s = M_Finish" "results (work s) = Some ch" "\<not> ch_closed ch"
      "s' = s\<lparr>work := (work s)\<lparr>results := Some (ch\<lparr>ch_closed := True\<rparr>)\<rparr>,
               total := now_finish e - start (work s), mainpc := M_WaitReporter\<rparr>"
  | (waitReporter) rp where "mainpc s = M_WaitReporter" "report (work s) = Some rp" "rp_done rp"
      "s' = s\<lparr>mainpc := M_Finalize\<rparr>"
  | (finalize) rp where "mainpc s = M_Finalize" "report (work s) = Some rp"
      "s' = s\<lparr>work := (work s)\<lparr>report := Some (finalize rp (total s))\<rparr>, mainpc := M_Returned\<rparr>"
proof (cases "mainpc s")
  case M_Init
  show ?thesis
  proof (cases "Init (work s)")
    case (Inl p)
    with assms M_Init crash show ?thesis by (auto simp: main_step_def)
  next
    case (Inr b)
    then show ?thesis
    proof (cases rule: Init_cases)
      case again
      with assms M_Init Inr init_again show ?thesis by (auto simp: main_step_def)
    next
      case first
      with assms M_Init Inr init show ?thesis by (auto simp: main_step_def)
    qed
  qed
next
  case M_UserKill
  with assms userKill show ?thesis by (auto simp: main_step_def)
next
  case M_RunInit
  show ?thesis
  proof (cases "Init (work s)")
    case (Inl p)
    with assms M_RunInit crash show ?thesis by (auto simp: main_step_def)
  next
    case (Inr b)
    then show ?thesis
    proof (cases rule: Init_cases)
      case again
      with assms M_RunInit Inr runInit_again show ?thesis by (auto simp: main_step_def)
    next
      case first
      with assms M_RunInit Inr runInit show ?thesis by (auto simp: main_step_def)
    qed
  qed
next
  case M_GoReporter
  with assms goReporter show ?thesis by (auto simp: main_step_def)
next
  case M_RunWorkers
  with assms crash runWorkers show ?thesis
    by (auto simp: main_step_def split: sum.splits if_splits)
next
  case (M_Spawn k)
  with assms spawn spawned show ?thesis by (auto simp: main_step_def split: if_splits)
next
  case M_Wait
  with assms wait show ?thesis by (auto simp: main_step_def split: if_splits)
next
  case M_Finish
  with assms crash finish show ?thesis
    by (auto simp: main_step_def split: option.splits if_splits)
next
  case M_WaitReporter
  with assms crash waitReporter show ?thesis
    by (auto simp: main_step_def split: option.splits if_splits)
next
  case M_Finalize
  with assms crash finalize show ?thesis
    by (auto simp: main_step_def split: option.splits)
next
  case M_Returned
  with assms show ?thesis by (simp add: main_step_def)
qed

lemma makeRequest_cases:
  obtains (crash) p where "makeRequest e g i s = crash p s"
  | (ok) req st where
      "makeRequest_request (WithContext_copies_URL e) (work s) (heap s) (int g) (int i) = Inr (req, st)"
      "makeRequest e g i s =
         s\<lparr>heap := Do_reads_body st req,
           workers := (workers s)(g := W_Push i (makeRequest_result (respond e g i))),
           sent := sent s @ [(g, i)]\<rparr>"
proof (cases "makeRequest_request (WithContext_copies_URL e) (work s) (heap s) (int g) (int i)")
  case (Inl p)
  then show ?thesis using crash [of p] by (simp add: makeRequest_def)
next
  case (Inr x)
  then show ?thesis using ok [of "fst x" "snd x"] by (simp add: makeRequest_def split: prod.splits)
qed

lemma worker_step_cases:
  assumes "worker_step e g s = Some s'"
  obtains (crash) p where "s' = crash p s"
  | (crash_token) p sc x xs where "stopCh (work s) = Some sc" "ch_buf sc = x # xs"
      "s' = crash p (s\<lparr>work := (work s)\<lparr>stopCh := Some (sc\<lparr>ch_buf := xs\<rparr>)\<rparr>\<rparr>)"
  | (start) "workers s g = W_Start"
      "s' = s\<lparr>the_client :=
                  (if DisableRedirects (work s)
                   then map_option (\<lambda>c. c\<lparr>CheckRedirect := True\<rparr>) (the_client s)
                   else the_client s),
               workers := (workers s)(g := W_Loop 0)\<rparr>"
  | (finished) i where "workers s g = W_Loop i" "\<not> int i < go_quot (N (work s)) (C (work s))"
      "0 \<le> wg s - 1"
      "s' = s\<lparr>wg := wg s - 1, workers := (workers s)(g := W_Done i False)\<rparr>"
  | (stopped) i sc x xs where "workers s g = W_Loop i" "int i < go_quot (N (work s)) (C (work s))"
      "stopCh (work s) = Some sc" "ch_buf sc = x # xs" "0 \<le> wg s - 1"
      "s' = s\<lparr>work := (work s)\<lparr>stopCh := Some (sc\<lparr>ch_buf := xs\<rparr>)\<rparr>,
               wg := wg s - 1, workers := (workers s)(g := W_Done i True)\<rparr>"
  | (stop_closed) i sc where "workers s g = W_Loop i" "int i < go_quot (N (work s)) (C (work s))"
      "stopCh (work s) = Some sc" "ch_buf sc = []" "ch_closed sc" "0 \<le> wg s - 1"
      "s' = s\<lparr>wg := wg s - 1, workers := (workers s)(g := W_Done i True)\<rparr>"
  | (throttle) i where "workers s g = W_Loop i" "int i < go_quot (N (work s)) (C (work s))"
      "chan_recv (stopCh (work s)) = RecvBlocked" "QPS (work s) > 0"
      "s' = s\<lparr>workers := (workers s)(g := W_Throttle i)\<rparr>"
  | (issue) i req st where "workers s g = W_Loop i"
      "int i < go_quot (N (work s)) (C (work s))"
      "chan_recv (stopCh (work s)) = RecvBlocked" "\<not> QPS (work s) > 0"
      "makeRequest_request (WithContext_copies_URL e) (work s) (heap s) (int g) (int i) = Inr (req, st)"
      "s' = s\<lparr>heap := Do_reads_body st req,
               workers := (workers s)(g := W_Push i (makeRequest_result (respond e g i))),
               sent := sent s @ [(g, i)]\<rparr>"
  | (issue_throttled) i req st where "workers s g = W_Throttle i"
      "throttle_ticks (QPS (work s))"
      "makeRequest_request (WithContext_copies_URL e) (work s) (heap s) (int g) (int i) = Inr (req, st)"
      "s' = s\<lparr>heap := Do_reads_body st req,
               workers := (workers s)(g := W_Push i (makeRequest_result (respond e g i))),
               sent := sent s @ [(g, i)]\<rparr>"
  | (push) i r ch where "workers s g = W_Push i r" "results (work s) = Some ch" "\<not> ch_closed ch"
      "length (ch_buf ch) < ch_cap ch"
      "s' = s\<lparr>work := (work s)\<lparr>results := Some (ch\<lparr>ch_buf := ch_buf ch @ [r]\<rparr>)\<rparr>,
               workers := (workers s)(g := W_Loop (Suc i)),
               pushed := pushed s @ [((g, i), r)]\<rparr>"
proof (cases "workers s g")
  case W_NotStarted
  with assms show ?thesis by (simp add: worker_step_def)
next
  case W_Start
  with assms start show ?thesis by (simp add: worker_step_def)
next
  case (W_Loop i)
  show ?thesis
  proof (cases "int i < go_quot (N (work s)) (C (work s))")
    case False
    with assms W_Loop crash finished show ?thesis
      by (auto simp: worker_step_def worker_returns_def split: if_splits)
  next
    case True
    show ?thesis
    proof (cases "chan_recv (stopCh (work s))")
      case RecvBlocked
      show ?thesis
      proof (cases "QPS (work s) > 0")
        case q: True
        with assms W_Loop True RecvBlocked throttle show ?thesis
          by (simp add: worker_step_def)
      next
        case q: False
        from assms W_Loop True RecvBlocked q have s': "s' = makeRequest e g i s"
          by (simp add: worker_step_def)
        show ?thesis
        proof (cases rule: makeRequest_cases [of e g i s])
          case (crash p)
          with s' that(1) show ?thesis by simp
        next
          case (ok req st)
          with s' W_Loop True RecvBlocked q issue [of i req st] show ?thesis by simp
        qed
      qed
    next
      case RecvClosed
      then obtain sc where "stopCh (work s) = Some sc" "ch_buf sc = []" "ch_closed sc"
        by (auto simp: chan_recv_def split: option.splits list.splits if_splits)
      with assms W_Loop True RecvClosed crash stop_closed show ?thesis
        by (auto simp: worker_step_def worker_returns_def split: if_splits)
    next
      case (Received x ch)
      then obtain sc xs where sc: "stopCh (work s) = Some sc" "ch_buf sc = x # xs" "ch = sc\<lparr>ch_buf := xs\<rparr>"
        by (auto simp: chan_recv_def split: option.splits list.splits if_splits)
      with assms W_Loop True Received crash_token [of sc x xs] stopped [of i sc x xs] show ?thesis
        by (auto simp: worker_step_def worker_returns_def split: if_splits)
    qed
  qed
next
  case (W_Throttle i)
  with assms have s': "s' = makeRequest e g i s" and tk: "throttle_ticks (QPS (work s))"
    by (simp_all add: worker_step_def split: if_splits)
  show ?thesis
  proof (cases rule: makeRequest_cases [of e g i s])
    case (crash p)
    with s' that(1) show ?thesis by simp
  next
    case (ok req st)
    with s' tk W_Throttle issue_throttled [of i req st] show ?thesis by simp
  qed
next
  case (W_Push i r)
  with assms crash push show ?thesis
    by (auto simp: worker_step_def chan_send_def split: option.splits if_splits)
next
  case (W_Done i b)
  with assms show ?thesis by (simp add: worker_step_def)
qed

lemma runReporter_step_cases:
  assumes "runReporter_step b = Some b'"
  obtains (recv) rp ch r rs where "report b = Some rp" "\<not> rp_done rp" "results b = Some ch"
      "ch_buf ch = r # rs"
      "b' = b\<lparr>results := Some (ch\<lparr>ch_buf := rs\<rparr>),
               report := Some (rp\<lparr>rp_recv := rp_recv rp @ [r]\<rparr>)\<rparr>"
  | (closed) rp ch where "report b = Some rp" "\<not> rp_done rp" "results b = Some ch"
      "ch_buf ch = []" "ch_closed ch"
      "b' = b\<lparr>report := Some (rp\<lparr>rp_done := True\<rparr>)\<rparr>"
  using assms
  by (auto simp: runReporter_step_def chan_recv_def
      split: option.splits if_splits list.splits recv_outcome.splits)

lemma Stop_step_cases:
  assumes "Stop_step sp s = Some (sp', s')"
  obtains (crash) p where "sp' = sp" "s' = crash p s"
  | (send) i sc where "sp = S_Sending i" "int i < C (work s)" "stopCh (work s) = Some sc"
      "\<not> ch_closed sc" "length (ch_buf sc) < ch_cap sc" "sp' = S_Sending (Suc i)"
      "s' = s\<lparr>work := (work s)\<lparr>stopCh := Some (sc\<lparr>ch_buf := ch_buf sc @ [()]\<rparr>)\<rparr>\<rparr>"
  | (finished) i where "sp = S_Sending i" "\<not> int i < C (work s)" "sp' = S_Finished" "s' = s"
  using assms
  by (auto simp: Stop_step_def chan_send_def
      split: stopper.splits if_splits option.splits send_outcome.splits)

lemma step_cases:
  assumes "step e a s = Some s'"
  obtains (main) "a = A_Main" "main_step e s = Some s'"
  | (worker) g where "a = A_Worker g" "worker_step e g s = Some s'"
  | (reporter) b' where "a = A_Reporter" "reporter_started s"
      "runReporter_step (work s) = Some b'" "s' = s\<lparr>work := b'\<rparr>"
  | (timer) "a = A_TimerFires" "timer_started s" "timer_stop s = S_Idle"
      "s' = s\<lparr>timer_stop := S_Sending 0\<rparr>"
  | (interrupt) "a = A_Interrupt" "sigint_armed s" "sigint_stop s = S_Idle"
      "s' = s\<lparr>sigint_stop := S_Sending 0\<rparr>"
  | (timer_stop) sp' s1 where "a = A_TimerStop" "Stop_step (timer_stop s) s = Some (sp', s1)"
      "s' = s1\<lparr>timer_stop := sp'\<rparr>"
  | (sigint_stop) sp' s1 where "a = A_SigintStop" "Stop_step (sigint_stop s) s = Some (sp', s1)"
      "s' = s1\<lparr>sigint_stop := sp'\<rparr>"
proof (cases a)
  case A_Main
  with assms main show ?thesis by (auto simp: step_def split: if_splits)
next
  case (A_Worker g)
  with assms worker show ?thesis by (auto simp: step_def split: if_splits)
next
  case A_Reporter
  with assms reporter show ?thesis by (auto simp: step_def split: if_splits)
next
  case A_TimerFires
  with assms timer show ?thesis by (auto simp: step_def split: if_splits)
next
  case A_Interrupt
  with assms interrupt show ?thesis by (auto simp: step_def split: if_splits)
next
  case A_TimerStop
  with assms timer_stop show ?thesis by (auto simp: step_def split: if_splits)
next
  case A_SigintStop
  with assms sigint_stop show ?thesis by (auto simp: step_def split: if_splits)
qed

lemma step_not_crashed: "step e a s = Some s' \<Longrightarrow> crashed s = None"
  by (simp add: step_def split: if_splits)

lemmas proj_defs = rbuf_def rclosed_def recv_def rdone_def the_summary_def

lemma inv_order_initial: "inv_order (initial b st)"
  by (simp add: inv_order_def initial_def proj_defs)

lemma inv_order_main:
  assumes "inv_order s" and "main_step e s = Some s'"
  shows "inv_order s'"
  using assms(2) assms(1)
  apply (cases rule: main_step_cases)
  apply (simp_all add: inv_order_def proj_defs crash_def make_chan_def newReport_def finalize_def
          less_Suc_eq)
  apply (metis nat_int)
  done

lemma inv_order_worker:
  assumes "inv_order s" and "worker_step e g s = Some s'"
  shows "inv_order s'"
  using assms(2) assms(1)
  apply (cases rule: worker_step_cases)
  apply (simp_all add: inv_order_def proj_defs crash_def)
  done

lemma inv_order_reporter:
  assumes "inv_order s" and "runReporter_step (work s) = Some b'"
  shows "inv_order (s\<lparr>work := b'\<rparr>)"
  using assms(2) assms(1)
  apply (cases rule: runReporter_step_cases)
  apply (simp_all add: inv_order_def proj_defs)
  apply clarsimp
  done

lemma inv_order_Stop:
  assumes "inv_order s" and "Stop_step sp s = Some (sp', s1)"
  shows "inv_order (s1\<lparr>timer_stop := x\<rparr>) \<and> inv_order (s1\<lparr>sigint_stop := x\<rparr>)"
  using assms(2) assms(1)
  apply (cases rule: Stop_step_cases)
  apply (simp_all add: inv_order_def proj_defs crash_def)
  done

lemma inv_order_step:
  assumes "inv_order s" and "step e a s = Some s'"
  shows "inv_order s'"
  using assms(2)
proof (cases rule: step_cases)
  case main
  with assms(1) show ?thesis by (simp add: inv_order_main)
next
  case (worker g)
  with assms(1) show ?thesis by (simp add: inv_order_worker)
next
  case (reporter b')
  with assms(1) show ?thesis by (simp add: inv_order_reporter)
next
  case timer
  with assms(1) show ?thesis by (simp add: inv_order_def proj_defs)
next
  case interrupt
  with assms(1) show ?thesis by (simp add: inv_order_def proj_defs)
next
  case (timer_stop sp' s1)
  with assms(1) show ?thesis by (simp add: inv_order_Stop)
next
  case (sigint_stop sp' s1)
  with assms(1) show ?thesis by (simp add: inv_order_Stop)
qed

lemma inv_order_reach: "reach e b st s \<Longrightarrow> inv_order s"
  by (erule reach_invariant [rotated 2]) (rule inv_order_initial, rule inv_order_step)

lemmas chan_defs = rbuf_def rcap_def sbuf_def scap_def sclosed_def

lemma inv_chan_initial: "inv_chan (initial b st)"
  by (simp add: inv_chan_def chan_defs initial_def)

lemma inv_chan_main:
  assumes "inv_chan s" and "main_step e s = Some s'"
  shows "inv_chan s'"
  using assms(2) assms(1)
  apply (cases rule: main_step_cases)
  apply (simp_all add: inv_chan_def chan_defs crash_def make_chan_def cap0_def)
  done

lemma inv_chan_worker:
  assumes "inv_chan s" and "worker_step e g s = Some s'"
  shows "inv_chan s'"
  using assms(2) assms(1)
  apply (cases rule: worker_step_cases)
  apply (simp_all add: inv_chan_def chan_defs crash_def cap0_def)
  done

lemma inv_chan_reporter:
  assumes "inv_chan s" and "runReporter_step (work s) = Some b'"
  shows "inv_chan (s\<lparr>work := b'\<rparr>)"
  using assms(2) assms(1)
  apply (cases rule: runReporter_step_cases)
  apply (simp_all add: inv_chan_def chan_defs cap0_def)
  done

lemma inv_chan_Stop:
  assumes "inv_chan s" and "Stop_step sp s = Some (sp', s1)"
  shows "inv_chan (s1\<lparr>timer_stop := x\<rparr>) \<and> inv_chan (s1\<lparr>sigint_stop := x\<rparr>)"
  using assms(2) assms(1)
  apply (cases rule: Stop_step_cases)
  apply (simp_all add: inv_chan_def chan_defs crash_def cap0_def)
  done

lemma inv_chan_step:
  assumes "inv_chan s" and "step e a s = Some s'"
  shows "inv_chan s'"
  using assms(2)
proof (cases rule: step_cases)
  case main
  with assms(1) show ?thesis by (simp add: inv_chan_main)
next
  case (worker g)
  with assms(1) show ?thesis by (simp add: inv_chan_worker)
next
  case (reporter b')
  with assms(1) show ?thesis by (simp add: inv_chan_reporter)
next
  case timer
  with assms(1) show ?thesis by (simp add: inv_chan_def chan_defs)
next
  case interrupt
  with assms(1) show ?thesis by (simp add: inv_chan_def chan_defs)
next
  case (timer_stop sp' s1)
  with assms(1) show ?thesis by (simp add: inv_chan_Stop)
next
  case (sigint_stop sp' s1)
  with assms(1) show ?thesis by (simp add: inv_chan_Stop)
qed

lemma inv_chan_reach: "reach e b st s \<Longrightarrow> inv_chan s"
  by (erule reach_invariant [rotated 2]) (rule inv_chan_initial, rule inv_chan_step)

lemma inv_drain_initial: "inv_drain (initial b st)"
  by (simp add: inv_drain_def initial_def proj_defs)

lemma inv_drain_main:
  assumes "inv_drain s" and "main_step e s = Some s'" and "inv_order s"
  shows "inv_drain s'"
  using assms(2) assms(1) assms(3)
  apply (cases rule: main_step_cases)
  apply (simp_all add: inv_drain_def inv_order_def proj_defs crash_def make_chan_def newReport_def
      finalize_def)
  done

lemma inv_drain_worker:
  assumes "inv_drain s" and "worker_step e g s = Some s'"
  shows "inv_drain s'"
  using assms(2) assms(1)
  apply (cases rule: worker_step_cases)
  apply (simp_all add: inv_drain_def proj_defs crash_def)
  done

lemma inv_drain_reporter:
  assumes "inv_drain s" and "runReporter_step (work s) = Some b'"
  shows "inv_drain (s\<lparr>work := b'\<rparr>)"
  using assms(2) assms(1)
  apply (cases rule: runReporter_step_cases)
  apply (simp_all add: inv_drain_def proj_defs)
  done

lemma inv_drain_Stop:
  assumes "inv_drain s" and "Stop_step sp s = Some (sp', s1)"
  shows "inv_drain (s1\<lparr>timer_stop := x\<rparr>) \<and> inv_drain (s1\<lparr>sigint_stop := x\<rparr>)"
  using assms(2) assms(1)
  apply (cases rule: Stop_step_cases)
  apply (simp_all add: inv_drain_def proj_defs crash_def)
  done

lemma inv_drain_step:
  assumes "inv_drain s" and "step e a s = Some s'" and "inv_order s"
  shows "inv_drain s'"
  using assms(2)
proof (cases rule: step_cases)
  case main
  with assms(1,3) show ?thesis by (simp add: inv_drain_main)
next
  case (worker g)
  with assms(1) show ?thesis by (simp add: inv_drain_worker)
next
  case (reporter b')
  with assms(1) show ?thesis by (simp add: inv_drain_reporter)
next
  case timer
  with assms(1) show ?thesis by (simp add: inv_drain_def proj_defs)
next
  case interrupt
  with assms(1) show ?thesis by (simp add: inv_drain_def proj_defs)
next
  case (timer_stop sp' s1)
  with assms(1) show ?thesis by (simp add: inv_drain_Stop)
next
  case (sigint_stop sp' s1)
  with assms(1) show ?thesis by (simp add: inv_drain_Stop)
qed

lemma inv_drain_reach: "reach e b st s \<Longrightarrow> inv_drain s"
proof -
  assume "reach e b st s"
  then have "inv_order s \<and> inv_drain s"
  proof (rule reach_invariant [rotated 2])
    show "inv_order (initial b st) \<and> inv_drain (initial b st)"
      by (simp add: inv_order_initial inv_drain_initial)
  next
    fix a s s' assume "inv_order s \<and> inv_drain s" "step e a s = Some s'"
    then show "inv_order s' \<and> inv_drain s'"
      by (simp add: inv_order_step [of s e a s'] inv_drain_step [of s e a s'])
  qed
  then show ?thesis by simp
qed

lemma finite_live: "finite (live c ws)"
  by (simp add: live_def)

lemma live_upd_done: "is_done w \<Longrightarrow> live c (ws(g := w)) = live c ws - {g}"
  by (auto simp: live_def)

lemma live_upd_same:
  "\<not> is_done w \<Longrightarrow> \<not> is_done (ws g) \<Longrightarrow> live c (ws(g := w)) = live c ws"
  by (auto simp: live_def)

lemma card_live_all: "(\<forall>g. ws g = W_NotStarted) \<Longrightarrow> card (live c ws) = c"
proof -
  assume "\<forall>g. ws g = W_NotStarted"
  then have "live c ws = {..<c}" by (auto simp: live_def)
  then show ?thesis by simp
qed

lemma card_live_remove:
  assumes "g < c" "\<not> is_done (ws g)"
  shows "int (card (live c ws - {g})) = int (card (live c ws)) - 1"
proof -
  from assms have m: "g \<in> live c ws" by (simp add: live_def)
  then have "card (live c ws) \<noteq> 0" using finite_live [of c ws] by auto
  moreover from m have "card (live c ws - {g}) = card (live c ws) - 1"
    using finite_live [of c ws] by simp
  ultimately show ?thesis by simp
qed

lemma live_empty: "card (live c ws) = 0 \<Longrightarrow> g < c \<Longrightarrow> is_done (ws g)"
  using finite_live [of c ws] by (auto simp: live_def)

lemma spawned_iff:
  "inv_order s \<Longrightarrow> (g < spawned (mainpc s) (C (work s))) = (workers s g \<noteq> W_NotStarted)"
  by (simp add: inv_order_def)

lemma started_lt:
  assumes "inv_order s" "workers s g \<noteq> W_NotStarted"
  shows "g < nat (C (work s))"
proof -
  from assms have lt: "g < spawned (mainpc s) (C (work s))" by (simp add: inv_order_def)
  from assms(1) have k: "\<forall>k. mainpc s = M_Spawn k \<longrightarrow> int k \<le> C (work s)"
    by (simp add: inv_order_def)
  show ?thesis
  proof (cases "mainpc s")
    case (M_Spawn k)
    with lt k show ?thesis by auto
  qed (use lt in simp_all)
qed

lemma inv_wg_initial: "inv_wg (initial b st)"
  by (simp add: inv_wg_def initial_def)

lemma inv_wg_main:
  assumes "inv_wg s" and "main_step e s = Some s'" and "inv_order s"
  shows "inv_wg s'"
  using assms(2)
proof (cases rule: main_step_cases)
  case (spawn k)
  from spawned_iff [OF assms(3), of k] spawn(1) have "(k < k) = (workers s k \<noteq> W_NotStarted)"
    by simp
  then have "\<not> is_done (workers s k)" by simp
  with assms(1) spawn show ?thesis by (simp add: inv_wg_def live_upd_same)
next
  case wait
  from assms(1) wait have c0: "card (live (nat (C (work s))) (workers s)) = 0"
    by (simp add: inv_wg_def)
  have "is_done (workers s g) \<or> workers s g = W_NotStarted" for g
  proof (cases "g < nat (C (work s))")
    case True
    with c0 show ?thesis by (simp add: live_empty)
  next
    case False
    from spawned_iff [OF assms(3), of g] wait(1)
    have "(g < nat (C (work s))) = (workers s g \<noteq> W_NotStarted)" by simp
    with False show ?thesis by simp
  qed
  with assms(1) wait show ?thesis by (simp add: inv_wg_def)
qed (use assms(1,3) in \<open>simp_all add: inv_wg_def inv_order_def crash_def card_live_all\<close>)

lemma inv_wg_worker:
  assumes "inv_wg s" and "worker_step e g s = Some s'" and "inv_order s"
  shows "inv_wg s'"
proof -
  have early: "\<not> 7 \<le> stage (mainpc s)"
    if "workers s g \<noteq> W_NotStarted" "\<not> is_done (workers s g)"
    using assms(1) that by (auto simp: inv_wg_def)
  have lt: "g < nat (C (work s)) \<and> 5 \<le> stage (mainpc s)" if "workers s g \<noteq> W_NotStarted"
  proof -
    from assms(3) that have "g < spawned (mainpc s) (C (work s))" by (simp add: inv_order_def)
    then have "5 \<le> stage (mainpc s)" by (cases "mainpc s") simp_all
    with started_lt [OF assms(3) that] show ?thesis by simp
  qed
  from assms(2) assms(1) early lt show ?thesis
    apply (cases rule: worker_step_cases)
    apply (simp_all add: inv_wg_def crash_def live_upd_same live_upd_done card_live_remove)
    done
qed

lemma inv_wg_reporter:
  assumes "inv_wg s" and "runReporter_step (work s) = Some b'"
  shows "inv_wg (s\<lparr>work := b'\<rparr>)"
  using assms(2) assms(1)
  apply (cases rule: runReporter_step_cases)
  apply (simp_all add: inv_wg_def)
  done

lemma inv_wg_Stop:
  assumes "inv_wg s" and "Stop_step sp s = Some (sp', s1)"
  shows "inv_wg (s1\<lparr>timer_stop := x\<rparr>) \<and> inv_wg (s1\<lparr>sigint_stop := x\<rparr>)"
  using assms(2) assms(1)
  apply (cases rule: Stop_step_cases)
  apply (simp_all add: inv_wg_def crash_def)
  done

lemma inv_wg_step:
  assumes "inv_wg s" and "step e a s = Some s'" and "inv_order s"
  shows "inv_wg s'"
  using assms(2)
proof (cases rule: step_cases)
  case main
  with assms(1,3) show ?thesis by (simp add: inv_wg_main)
next
  case (worker g)
  with assms(1,3) show ?thesis by (simp add: inv_wg_worker)
next
  case (reporter b')
  with assms(1) show ?thesis by (simp add: inv_wg_reporter)
next
  case timer
  with assms(1) show ?thesis by (simp add: inv_wg_def)
next
  case interrupt
  with assms(1) show ?thesis by (simp add: inv_wg_def)
next
  case (timer_stop sp' s1)
  with assms(1) show ?thesis by (simp add: inv_wg_Stop)
next
  case (sigint_stop sp' s1)
  with assms(1) show ?thesis by (simp add: inv_wg_Stop)
qed

lemma inv_sent_initial: "inv_sent (initial b st)"
  by (simp add: inv_sent_def initial_def)

lemma not_spawned_yet:
  assumes "inv_order s" "mainpc s = M_Spawn k"
  shows "workers s k = W_NotStarted"
  using spawned_iff [OF assms(1), of k] assms(2) by simp

lemma inv_sent_main:
  assumes "inv_sent s" and "main_step e s = Some s'" and "inv_order s"
  shows "inv_sent s'"
  using assms(2)
proof (cases rule: main_step_cases)
  case (spawn k)
  with assms(1) not_spawned_yet [OF assms(3) spawn(1)] show ?thesis
    by (simp add: inv_sent_def)
qed (use assms(1) in \<open>simp_all add: inv_sent_def crash_def\<close>)

lemma inv_sent_worker:
  assumes "inv_sent s" and "worker_step e g s = Some s'"
  shows "inv_sent s'"
  using assms(2) assms(1)
  apply (cases rule: worker_step_cases)
  apply (simp_all add: inv_sent_def crash_def)
  apply (simp_all add: less_Suc_eq disj_commute)
  done

lemma inv_sent_reporter:
  assumes "inv_sent s" and "runReporter_step (work s) = Some b'"
  shows "inv_sent (s\<lparr>work := b'\<rparr>)"
  using assms(2) assms(1)
  apply (cases rule: runReporter_step_cases)
  apply (simp_all add: inv_sent_def)
  done

lemma inv_sent_Stop:
  assumes "inv_sent s" and "Stop_step sp s = Some (sp', s1)"
  shows "inv_sent (s1\<lparr>timer_stop := x\<rparr>) \<and> inv_sent (s1\<lparr>sigint_stop := x\<rparr>)"
  using assms(2) assms(1)
  apply (cases rule: Stop_step_cases)
  apply (simp_all add: inv_sent_def crash_def)
  done

lemma inv_sent_step:
  assumes "inv_sent s" and "step e a s = Some s'" and "inv_order s"
  shows "inv_sent s'"
  using assms(2)
proof (cases rule: step_cases)
  case main
  with assms(1,3) show ?thesis by (simp add: inv_sent_main)
next
  case (worker g)
  with assms(1) show ?thesis by (simp add: inv_sent_worker)
next
  case (reporter b')
  with assms(1) show ?thesis by (simp add: inv_sent_reporter)
next
  case timer
  with assms(1) show ?thesis by (simp add: inv_sent_def)
next
  case interrupt
  with assms(1) show ?thesis by (simp add: inv_sent_def)
next
  case (timer_stop sp' s1)
  with assms(1) show ?thesis by (simp add: inv_sent_Stop)
next
  case (sigint_stop sp' s1)
  with assms(1) show ?thesis by (simp add: inv_sent_Stop)
qed

lemma inv_pushed_initial: "inv_pushed e (initial b st)"
  by (simp add: inv_pushed_def initial_def proj_defs)

lemma inv_pushed_main:
  assumes "inv_pushed e s" and "main_step e s = Some s'" and "inv_order s"
  shows "inv_pushed e s'"
  using assms(2)
proof (cases rule: main_step_cases)
  case (spawn k)
  with assms(1) not_spawned_yet [OF assms(3) spawn(1)] show ?thesis
    by (simp add: inv_pushed_def proj_defs)
qed (use assms(1,3) in \<open>simp_all add: inv_pushed_def inv_order_def proj_defs crash_def make_chan_def
        newReport_def finalize_def\<close>)

lemma inv_pushed_worker:
  assumes "inv_pushed e s" and "worker_step e g s = Some s'"
  shows "inv_pushed e s'"
  using assms(2) assms(1)
  apply (cases rule: worker_step_cases)
  apply (simp_all add: inv_pushed_def proj_defs crash_def)
  apply (simp_all add: less_Suc_eq disj_commute)
  done

lemma inv_pushed_reporter:
  assumes "inv_pushed e s" and "runReporter_step (work s) = Some b'"
  shows "inv_pushed e (s\<lparr>work := b'\<rparr>)"
  using assms(2) assms(1)
  apply (cases rule: runReporter_step_cases)
  apply (simp_all add: inv_pushed_def proj_defs)
  done

lemma inv_pushed_Stop:
  assumes "inv_pushed e s" and "Stop_step sp s = Some (sp', s1)"
  shows "inv_pushed e (s1\<lparr>timer_stop := x\<rparr>) \<and> inv_pushed e (s1\<lparr>sigint_stop := x\<rparr>)"
  using assms(2) assms(1)
  apply (cases rule: Stop_step_cases)
  apply (simp_all add: inv_pushed_def proj_defs crash_def)
  done

lemma inv_pushed_step:
  assumes "inv_pushed e s" and "step e a s = Some s'" and "inv_order s"
  shows "inv_pushed e s'"
  using assms(2)
proof (cases rule: step_cases)
  case main
  with assms(1,3) show ?thesis by (simp add: inv_pushed_main)
next
  case (worker g)
  with assms(1) show ?thesis by (simp add: inv_pushed_worker)
next
  case (reporter b')
  with assms(1) show ?thesis by (simp add: inv_pushed_reporter)
next
  case timer
  with assms(1) show ?thesis by (simp add: inv_pushed_def proj_defs)
next
  case interrupt
  with assms(1) show ?thesis by (simp add: inv_pushed_def proj_defs)
next
  case (timer_stop sp' s1)
  with assms(1) show ?thesis by (simp add: inv_pushed_Stop)
next
  case (sigint_stop sp' s1)
  with assms(1) show ?thesis by (simp add: inv_pushed_Stop)
qed

lemma inv_bound_initial: "inv_bound (initial b st)"
  by (simp add: inv_bound_def initial_def)

lemma inv_bound_main:
  assumes "inv_bound s" and "main_step e s = Some s'"
  shows "inv_bound s'"
  using assms(2) assms(1)
  apply (cases rule: main_step_cases)
  apply (simp_all add: inv_bound_def crash_def)
  done

lemma inv_bound_worker:
  assumes "inv_bound s" and "worker_step e g s = Some s'"
  shows "inv_bound s'"
proof -
  from assms(1) have wb: "wbound (go_quot (N (work s)) (C (work s))) (workers s g)"
    by (simp add: inv_bound_def)
  from assms(2) assms(1) wb show ?thesis
    apply (cases rule: worker_step_cases)
    apply (simp_all add: inv_bound_def crash_def)
    done
qed

lemma inv_bound_reporter:
  assumes "inv_bound s" and "runReporter_step (work s) = Some b'"
  shows "inv_bound (s\<lparr>work := b'\<rparr>)"
  using assms(2) assms(1)
  apply (cases rule: runReporter_step_cases)
  apply (simp_all add: inv_bound_def)
  done

lemma inv_bound_Stop:
  assumes "inv_bound s" and "Stop_step sp s = Some (sp', s1)"
  shows "inv_bound (s1\<lparr>timer_stop := x\<rparr>) \<and> inv_bound (s1\<lparr>sigint_stop := x\<rparr>)"
  using assms(2) assms(1)
  apply (cases rule: Stop_step_cases)
  apply (simp_all add: inv_bound_def crash_def)
  done

lemma inv_bound_step:
  assumes "inv_bound s" and "step e a s = Some s'"
  shows "inv_bound s'"
  using assms(2)
proof (cases rule: step_cases)
  case main
  with assms(1) show ?thesis by (simp add: inv_bound_main)
next
  case (worker g)
  with assms(1) show ?thesis by (simp add: inv_bound_worker)
next
  case (reporter b')
  with assms(1) show ?thesis by (simp add: inv_bound_reporter)
next
  case timer
  with assms(1) show ?thesis by (simp add: inv_bound_def)
next
  case interrupt
  with assms(1) show ?thesis by (simp add: inv_bound_def)
next
  case (timer_stop sp' s1)
  with assms(1) show ?thesis by (simp add: inv_bound_Stop)
next
  case (sigint_stop sp' s1)
  with assms(1) show ?thesis by (simp add: inv_bound_Stop)
qed

lemma inv_stop_initial: "inv_stop e (initial b st)"
  by (simp add: inv_stop_def initial_def chan_defs)

lemma inv_stop_main:
  assumes "inv_stop e s" and "main_step e s = Some s'"
  shows "inv_stop e s'"
  using assms(2) assms(1)
  apply (cases rule: main_step_cases)
  apply (simp_all add: inv_stop_def chan_defs crash_def make_chan_def)
  done

lemma inv_stop_worker:
  assumes "inv_stop e s" and "worker_step e g s = Some s'" and "inv_chan s"
  shows "inv_stop e s'"
  using assms(2) assms(1) assms(3)
  apply (cases rule: worker_step_cases)
  apply (simp_all add: inv_stop_def inv_chan_def chan_defs crash_def)
  apply clarsimp+
  done

lemma inv_stop_reporter:
  assumes "inv_stop e s" and "runReporter_step (work s) = Some b'"
  shows "inv_stop e (s\<lparr>work := b'\<rparr>)"
  using assms(2) assms(1)
  apply (cases rule: runReporter_step_cases)
  apply (simp_all add: inv_stop_def chan_defs)
  done

lemma inv_stop_timer_Stop:
  assumes "inv_stop e s" and "Stop_step (timer_stop s) s = Some (sp', s1)"
  shows "inv_stop e (s1\<lparr>timer_stop := sp'\<rparr>)"
  using assms(2) assms(1)
  apply (cases rule: Stop_step_cases)
  apply (simp_all add: inv_stop_def chan_defs crash_def)
  done

lemma inv_stop_sigint_Stop:
  assumes "inv_stop e s" and "Stop_step (sigint_stop s) s = Some (sp', s1)"
  shows "inv_stop e (s1\<lparr>sigint_stop := sp'\<rparr>)"
  using assms(2) assms(1)
  apply (cases rule: Stop_step_cases)
  apply (simp_all add: inv_stop_def chan_defs crash_def)
  done

lemma inv_stop_step:
  assumes "inv_stop e s" and "step e a s = Some s'" and "inv_chan s"
  shows "inv_stop e s'"
  using assms(2)
proof (cases rule: step_cases)
  case main
  with assms(1) show ?thesis by (simp add: inv_stop_main)
next
  case (worker g)
  with assms(1,3) show ?thesis by (simp add: inv_stop_worker)
next
  case (reporter b')
  with assms(1) show ?thesis by (simp add: inv_stop_reporter)
next
  case timer
  with assms(1) show ?thesis by (simp add: inv_stop_def chan_defs)
next
  case interrupt
  with assms(1) show ?thesis by (simp add: inv_stop_def chan_defs)
next
  case (timer_stop sp' s1)
  with assms(1) show ?thesis by (simp add: inv_stop_timer_Stop)
next
  case (sigint_stop sp' s1)
  with assms(1) show ?thesis by (simp add: inv_stop_sigint_Stop)
qed

lemma inv_all_reach: "reach e b st s \<Longrightarrow> inv_all e s"
proof (erule reach_invariant [rotated 2])
  show "inv_all e (initial b st)"
    by (simp add: inv_all_def inv_order_initial inv_chan_initial inv_drain_initial inv_wg_initial
        inv_sent_initial inv_pushed_initial inv_bound_initial inv_stop_initial)
next
  fix a s s' assume i: "inv_all e s" and st: "step e a s = Some s'"
  from i have o: "inv_order s" and c: "inv_chan s" by (simp_all add: inv_all_def)
  from i st o c show "inv_all e s'"
    by (simp add: inv_all_def inv_order_step [of s e a s'] inv_chan_step [of s e a s']
        inv_drain_step [of s e a s'] inv_wg_step [of s e a s'] inv_sent_step [of s e a s']
        inv_pushed_step [of e s a s'] inv_bound_step [of s e a s'] inv_stop_step [of e s a s'])
qed








lemma params_step: "step e a s = Some s' \<Longrightarrow> params (work s') = params (work s)"
proof (erule step_cases)
  assume "main_step e s = Some s'"
  then show ?thesis
    by (cases rule: main_step_cases) (simp_all add: params_def crash_def)
next
  fix g assume "worker_step e g s = Some s'"
  then show ?thesis
    by (cases rule: worker_step_cases) (simp_all add: params_def crash_def)
next
  fix b' assume "runReporter_step (work s) = Some b'" "s' = s\<lparr>work := b'\<rparr>"
  then show ?thesis
    by (cases rule: runReporter_step_cases) (simp_all add: params_def)
next
  fix sp' s1 assume "Stop_step (timer_stop s) s = Some (sp', s1)" "s' = s1\<lparr>timer_stop := sp'\<rparr>"
  then show ?thesis
    by (cases rule: Stop_step_cases) (simp_all add: params_def crash_def)
next
  fix sp' s1 assume "Stop_step (sigint_stop s) s = Some (sp', s1)" "s' = s1\<lparr>sigint_stop := sp'\<rparr>"
  then show ?thesis
    by (cases rule: Stop_step_cases) (simp_all add: params_def crash_def)
qed simp_all

lemma params_reach: "reach e b st s \<Longrightarrow> params (work s) = params b"
proof (erule reach_invariant [rotated 2])
  show "params (work (initial b st)) = params b" by (simp add: initial_def params_def)
next
  fix a s s' assume "params (work s) = params b" "step e a s = Some s'"
  then show "params (work s') = params b" by (simp add: params_step)
qed

lemma params_N_C:
  assumes "params b' = params b"
  shows "N b' = N b \<and> C b' = C b \<and> QPS b' = QPS b"
proof -
  have "N (params b') = N (params b)" "C (params b') = C (params b)"
    "QPS (params b') = QPS (params b)"
    using assms by simp_all
  then show ?thesis by (simp add: params_def)
qed

lemma done_at_return:
  assumes "inv_all e s" "7 \<le> stage (mainpc s)" "g < nat (C (work s))"
  shows "is_done (workers s g)"
proof -
  from assms(1,2) have "is_done (workers s g) \<or> workers s g = W_NotStarted"
    by (simp add: inv_all_def inv_wg_def)
  moreover from assms(1) have "(g < spawned (mainpc s) (C (work s))) = (workers s g \<noteq> W_NotStarted)"
    by (simp add: inv_all_def spawned_iff)
  moreover from assms(2) have "spawned (mainpc s) (C (work s)) = nat (C (work s))"
    by (cases "mainpc s") simp_all
  ultimately show ?thesis using assms(3) by simp
qed





lemmas ex_defs = ex_work_def ex_store_def ex_env_def ex_roundtrip_def ex_schedule_def initial_def

lemmas sys_defs = step_def main_step_def worker_step_def Stop_step_def runReporter_step_def
  makeRequest_def worker_returns_def crash_def chan_send_def chan_recv_def make_chan_def Init_def
  min_int_def int64_def maxResult_def maxIdleConn_def go_quot_def newReport_def finalize_def
  summary_of_def makeRequest_result_def

lemmas req_defs = makeRequest_request_def cloneRequest_def WithContext_def randmark_def
  header_map_def Do_reads_body_def runWorkers_client_def runWorkers_tls_def mark_def Replace.simps
  randmark_tag_def Itoa_def digits.simps digit_char_def

lemma ex_exec: "exec ex_env ex_schedule (initial ex_work ex_store) = Some ex_final"
  by (simp add: ex_final_def ex_defs sys_defs req_defs Let_def)

lemma ex_reach: "reach ex_env ex_work ex_store ex_final"
  using ex_exec by (auto simp: reach_def)

lemma ex_facts:
  "mainpc ex_final = M_Returned \<and> sigint_stop ex_final = S_Idle \<and> crashed ex_final = None \<and>
   sent ex_final = [(0, 0), (1, 0)] \<and> map fst (pushed ex_final) = [(0, 0), (1, 0)] \<and>
   map err (map snd (pushed ex_final)) = [Some ''connection refused'', None] \<and>
   workers ex_final 0 = W_Done 1 False \<and> workers ex_final 1 = W_Done 1 False \<and>
   rbuf ex_final = [] \<and> rcap ex_final = 2000 \<and> rclosed ex_final \<and> rdone ex_final \<and>
   reporter_started ex_final \<and>
   the_summary ex_final = Some \<lparr>sm_issued = 2, sm_errors = 1, sm_elapsed = 100\<rparr>"
  by (simp add: ex_final_def ex_defs sys_defs req_defs proj_defs chan_defs Let_def)








text \<open>
  C3. In every state of a run: a worker has been started only if the reporter has been;
  \<open>Finish\<close> is reached only when all \<open>C\<close> workers have returned (and no other worker
  exists); the Result Stream is closed exactly from the first action of \<open>Finish\<close> on; the
  final computation is reached only when the reporter has signalled that it is done, with
  the stream empty and every record sent received; and \<open>Run\<close> has returned exactly when
  the Run Summary exists, computed from all the records sent.
\<close>

theorem Run_order:
  assumes "reach e b st s"
  shows "((\<exists>g. workers s g \<noteq> W_NotStarted) \<longrightarrow> reporter_started s) \<and>
         (7 \<le> stage (mainpc s) \<longrightarrow> (\<forall>g. g < nat (C b) \<longrightarrow> is_done (workers s g))) \<and>
         (\<forall>g. workers s g \<noteq> W_NotStarted \<longrightarrow> g < nat (C b)) \<and>
         rclosed s = (8 \<le> stage (mainpc s)) \<and>
         (9 \<le> stage (mainpc s) \<longrightarrow>
            rdone s \<and> rbuf s = [] \<and> recv s = map snd (pushed s)) \<and>
         the_summary s =
           (if mainpc s = M_Returned
            then Some (summary_of (map snd (pushed s)) (total s)) else None)"
proof -
  from assms have i: "inv_all e s" by (rule inv_all_reach)
  then have o: "inv_order s" by (simp add: inv_all_def)
  from params_N_C [OF params_reach [OF assms]] have c: "C (work s) = C b" by simp
  have a: "reporter_started s" if "workers s g \<noteq> W_NotStarted" for g
  proof -
    from spawned_iff [OF o, of g] that have "g < spawned (mainpc s) (C (work s))" by simp
    then have "4 \<le> stage (mainpc s)" by (cases "mainpc s") simp_all
    with o show ?thesis by (simp add: inv_order_def)
  qed
  have d: "is_done (workers s g)" if "7 \<le> stage (mainpc s)" "g < nat (C b)" for g
    using done_at_return [OF i that(1), of g] that(2) c by simp
  have l: "g < nat (C b)" if "workers s g \<noteq> W_NotStarted" for g
    using started_lt [OF o that] c by simp
  from o have cl: "rclosed s = (8 \<le> stage (mainpc s))" by (simp add: inv_order_def)
  have dr: "rdone s \<and> rbuf s = [] \<and> recv s = map snd (pushed s)" if "9 \<le> stage (mainpc s)"
  proof -
    from o that have rd: "rdone s" by (simp add: inv_order_def)
    with i have "rbuf s = []" by (simp add: inv_all_def inv_drain_def)
    moreover from i have "map snd (pushed s) = recv s @ rbuf s"
      by (simp add: inv_all_def inv_pushed_def)
    ultimately show ?thesis using rd by simp
  qed
  from o have "the_summary s =
      (if mainpc s = M_Returned then Some (summary_of (recv s) (total s)) else None)"
    by (simp add: inv_order_def)
  with dr have su: "the_summary s =
      (if mainpc s = M_Returned then Some (summary_of (map snd (pushed s)) (total s)) else None)"
    by (cases "mainpc s") simp_all
  from a d l cl dr su show ?thesis by blast
qed

theorem Run_order_witness:
  "reach ex_env ex_work ex_store ex_final \<and> mainpc ex_final = M_Returned \<and>
   workers ex_final 0 \<noteq> W_NotStarted \<and> reporter_started ex_final \<and>
   is_done (workers ex_final 0) \<and> is_done (workers ex_final 1) \<and> rclosed ex_final \<and>
   rdone ex_final \<and> rbuf ex_final = [] \<and>
   the_summary ex_final = Some (summary_of (map snd (pushed ex_final)) (total ex_final)) \<and>
   the_summary ex_final = Some \<lparr>sm_issued = 2, sm_errors = 1, sm_elapsed = 100\<rparr>"
proof -
  from ex_facts have r: "mainpc ex_final = M_Returned" "workers ex_final 0 = W_Done 1 False"
    "the_summary ex_final = Some \<lparr>sm_issued = 2, sm_errors = 1, sm_elapsed = 100\<rparr>"
    by simp_all
  from r have w: "workers ex_final 0 \<noteq> W_NotStarted" by simp
  from Run_order [OF ex_reach] r(1) w
  have "reporter_started ex_final"
    "\<forall>g. g < nat (C ex_work) \<longrightarrow> is_done (workers ex_final g)" "rclosed ex_final"
    "rdone ex_final \<and> rbuf ex_final = [] \<and> recv ex_final = map snd (pushed ex_final)"
    "the_summary ex_final = Some (summary_of (map snd (pushed ex_final)) (total ex_final))"
    by auto
  then have "is_done (workers ex_final 0)" "is_done (workers ex_final 1)"
    "reporter_started ex_final" "rclosed ex_final" "rdone ex_final" "rbuf ex_final = []"
    "the_summary ex_final = Some (summary_of (map snd (pushed ex_final)) (total ex_final))"
    by (simp_all add: ex_work_def)
  with ex_reach r w show ?thesis by simp
qed

















end
